theory Spec2Isabelle
  imports Complex_Main "HOL-Library.Multiset"
begin

section \<open>Data model of \<^verbatim>\<open>src/index.tsx\<close>\<close>

text \<open>
  The interface \<^verbatim>\<open>Question\<close>. The fields \<^verbatim>\<open>id\<close> and \<^verbatim>\<open>text\<close> are written
  \<open>qid\<close> and \<open>qtext\<close>; the optional \<^verbatim>\<open>explanation\<close> is an option.
\<close>

record question =
  qid :: int
  qtext :: string
  options :: "string list"
  correctAnswer :: string
  explanation :: "string option"

text \<open>The union type of \<^verbatim>\<open>AppState.step\<close>: 'upload' | 'parsing' | 'exam' | 'results'.\<close>

datatype step = Upload | Parsing | Exam | Results

text \<open>
  The interface \<^verbatim>\<open>AppState\<close>. \<^verbatim>\<open>currentQuestionIndex\<close> only ever arises from 0 by
  \<^verbatim>\<open>+ 1\<close> and by a \<^verbatim>\<open>- 1\<close> guarded with \<^verbatim>\<open>> 0\<close>, so it is a natural number; where the
  source subtracts from a length the comparison is written over \<open>int\<close>.
  \<^verbatim>\<open>userAnswers: Record<number, string>\<close> is a map from positions to strings, an absent
  key reading as \<^verbatim>\<open>undefined\<close>.
\<close>

record app_state =
  step :: step
  questions :: "question list"
  currentQuestionIndex :: nat
  userAnswers :: "nat \<rightharpoonup> string"
  isLoading :: bool
  error :: "string option"

text \<open>The initial value given to \<^verbatim>\<open>useState\<close> (lines 51-58).\<close>

definition initial_state :: app_state where
  "initial_state =
     \<lparr>step = Upload, questions = [], currentQuestionIndex = 0,
      userAnswers = Map.empty, isLoading = False, error = None\<rparr>"

section \<open>JavaScript numbers\<close>

text \<open>
  A JavaScript number is a binary64 value. The finite, non-negative ones that occur
  here are written as pairs \<open>(m, e)\<close> standing for \<open>m * 2\<^sup>e\<close>. An arithmetic operation
  gives the value nearest to the exact result among those with a significand of 53
  bits, a tie going to the even significand. That is the rounding of binary64 for
  results from \<open>2\<^sup>-\<^sup>1\<^sup>0\<^sup>2\<^sup>2\<close> up to the overflow threshold; the results below are in that
  range, or are zero, or are smaller products of a number with an integer, which are
  integer multiples of \<open>2\<^sup>-\<^sup>1\<^sup>0\<^sup>7\<^sup>4\<close> with fewer than 53 bits and exact either way.
\<close>

text \<open>The number of binary digits of a positive integer.\<close>

function bitlen :: "int \<Rightarrow> int" where
  "bitlen n = (if n \<le> 0 then 0 else 1 + bitlen (n div 2))"
  by pat_completeness auto
termination
  by (relation "measure nat") auto

declare bitlen.simps [simp del]

text \<open>The exponent \<open>e\<close> with \<open>2\<^sup>e \<le> a / b < 2\<^sup>e\<^sup>+\<^sup>1\<close>, for positive \<open>a\<close> and \<open>b\<close>.\<close>

definition ratio_exponent :: "int \<Rightarrow> int \<Rightarrow> int" where
  "ratio_exponent a b =
     (let d = bitlen a - bitlen b
      in if (2::rat) powi d \<le> of_int a / of_int b then d else d - 1)"

text \<open>The nearest integer, a tie going to the even one.\<close>

definition round_half_even :: "rat \<Rightarrow> int" where
  "round_half_even x =
     (let f = \<lfloor>x\<rfloor>; r = x - of_int f
      in if r < 1/2 then f else if 1/2 < r then f + 1 else if even f then f else f + 1)"

type_synonym double = "int \<times> int"

definition dval :: "double \<Rightarrow> rat" where
  "dval d = of_int (fst d) * 2 powi (snd d)"

text \<open>
  The binary64 value nearest to \<open>a / b * 2\<^sup>k\<close>, for \<open>a \<ge> 0\<close> and \<open>b > 0\<close>: the
  quotient is scaled to a significand between \<open>2\<^sup>5\<^sup>2\<close> and \<open>2\<^sup>5\<^sup>3\<close> and rounded.
\<close>

definition round_to_double :: "int \<Rightarrow> int \<Rightarrow> int \<Rightarrow> double" where
  "round_to_double a b k =
     (if a = 0 then (0, 0)
      else let e = ratio_exponent a b;
               m = round_half_even (of_int a / of_int b * 2 powi (52 - e))
           in (m, e - 52 + k))"

text \<open>The product of a number and a non-negative integer.\<close>

definition js_times :: "double \<Rightarrow> int \<Rightarrow> double" where
  "js_times d n = round_to_double (fst d * n) 1 (snd d)"

section \<open>The random source\<close>

text \<open>
  \<^verbatim>\<open>Math.random()\<close> is a source of numbers: the \<open>k\<close>-th call returns \<open>rnd k\<close>, and every
  function that draws takes the number of the next call and returns it advanced.
  The language standard promises a number that is at least 0 and less than 1:
  \<open>unit_double\<close> is that, for a pair with a significand of at most 53 bits (\<open>2\<^sup>5\<^sup>3\<close>
  itself stands for a power of two) and an exponent binary64 has. The theorems about
  shuffling assume it of every draw.
\<close>

type_synonym random_source = "nat \<Rightarrow> double"

definition unit_double :: "double \<Rightarrow> bool" where
  "unit_double d = (0 \<le> fst d \<and> fst d \<le> 2 ^ 53 \<and> - 1074 \<le> snd d \<and> dval d < 1)"

definition unit_draws :: "random_source \<Rightarrow> bool" where
  "unit_draws rnd = (\<forall>k. unit_double (rnd k))"

text \<open>
  \<^verbatim>\<open>Math.floor(Math.random() * (i + 1))\<close> at the \<open>k\<close>-th call: the rounded product of
  the draw and \<open>i + 1\<close>, and its integer part.
\<close>

definition draw_index :: "random_source \<Rightarrow> nat \<Rightarrow> nat \<Rightarrow> nat" where
  "draw_index rnd k i = nat \<lfloor>dval (js_times (rnd k) (int i + 1))\<rfloor>"

text \<open>An array holds fewer than \<open>2\<^sup>3\<^sup>2\<close> elements.\<close>

definition array_sized :: "'a list \<Rightarrow> bool" where
  "array_sized xs = (length xs < 2 ^ 32)"

section \<open>shuffleArray (lines 41-48)\<close>

text \<open>
  The loop \<^verbatim>\<open>for (let i = newArray.length - 1; i > 0; i--)\<close>, by recursion on \<open>i\<close>.
  The destructuring swap reads both cells first and then writes cell \<open>i\<close>, then
  cell \<open>j\<close>.
\<close>

fun shuffle_loop :: "random_source \<Rightarrow> nat \<Rightarrow> nat \<Rightarrow> 'a list \<Rightarrow> 'a list \<times> nat" where
  "shuffle_loop rnd k 0 newArray = (newArray, k)"
| "shuffle_loop rnd k (Suc i) newArray =
     (let j = draw_index rnd k (Suc i)
      in shuffle_loop rnd (Suc k) i
           (newArray[Suc i := newArray ! j, j := newArray ! Suc i]))"

text \<open>
  \<^verbatim>\<open>const newArray = [...array]\<close> is the value \<open>array\<close> itself here; on the empty array
  \<^verbatim>\<open>length - 1\<close> is \<open>-1\<close>, the loop does not run, and the truncated \<open>0 - 1 = 0\<close> of
  \<open>nat\<close> gives the same.
\<close>

definition shuffleArray :: "random_source \<Rightarrow> nat \<Rightarrow> 'a list \<Rightarrow> 'a list \<times> nat" where
  "shuffleArray rnd k array = shuffle_loop rnd k (length array - 1) array"

subsection \<open>The same function against a store of arrays\<close>

text \<open>
  To say which array the loop writes, the arrays live in a store: an address is a
  position of the store, \<^verbatim>\<open>[...array]\<close> allocates a fresh address holding a copy, and
  every write of the loop goes to the array at \<open>newArray\<close>.
\<close>

type_synonym 'a store = "'a list list"

fun shuffle_loop_st :: "random_source \<Rightarrow> nat \<Rightarrow> nat \<Rightarrow> nat \<Rightarrow> 'a store \<Rightarrow> 'a store \<times> nat" where
  "shuffle_loop_st rnd k newArray 0 st = (st, k)"
| "shuffle_loop_st rnd k newArray (Suc i) st =
     (let j = draw_index rnd k (Suc i);
          cells = st ! newArray
      in shuffle_loop_st rnd (Suc k) newArray i
           (st[newArray := cells[Suc i := cells ! j, j := cells ! Suc i]]))"

text \<open>Returns the address of the result, the store and the advanced call number.\<close>

definition shuffleArray_st :: "random_source \<Rightarrow> nat \<Rightarrow> 'a store \<Rightarrow> nat \<Rightarrow> nat \<times> 'a store \<times> nat" where
  "shuffleArray_st rnd k st array =
     (let newArray = length st;
          st1 = st @ [st ! array];
          (st2, k') = shuffle_loop_st rnd k newArray (length (st1 ! newArray) - 1) st1
      in (newArray, st2, k'))"

section \<open>The state updaters of ExamApp\<close>

text \<open>
  Each handler passes \<^verbatim>\<open>setState\<close> an updater of the previous state; the handlers run
  one at a time, so the \<^verbatim>\<open>state\<close> a handler reads is the \<^verbatim>\<open>prev\<close> its updater gets.
\<close>

text \<open>selectAnswer (lines 159-164).\<close>

definition selectAnswer :: "app_state \<Rightarrow> string \<Rightarrow> app_state" where
  "selectAnswer prev answer =
     prev\<lparr>userAnswers := (userAnswers prev)(currentQuestionIndex prev \<mapsto> answer)\<rparr>"

text \<open>nextQuestion (lines 166-172).\<close>

definition nextQuestion :: "app_state \<Rightarrow> app_state" where
  "nextQuestion s =
     (if int (currentQuestionIndex s) < int (length (questions s)) - 1
      then s\<lparr>currentQuestionIndex := currentQuestionIndex s + 1\<rparr>
      else s\<lparr>step := Results\<rparr>)"

text \<open>prevQuestion (lines 174-178).\<close>

definition prevQuestion :: "app_state \<Rightarrow> app_state" where
  "prevQuestion s =
     (if currentQuestionIndex s > 0
      then s\<lparr>currentQuestionIndex := currentQuestionIndex s - 1\<rparr>
      else s)"

text \<open>restartFull (lines 180-189) replaces the state whatever it was.\<close>

definition restartFull :: "app_state \<Rightarrow> app_state" where
  "restartFull s =
     \<lparr>step = Upload, questions = [], currentQuestionIndex = 0,
      userAnswers = Map.empty, isLoading = False, error = None\<rparr>"

text \<open>
  \<^verbatim>\<open>.map(q => ({...q, options: shuffleArray(q.options)}))\<close>, the calls of
  \<^verbatim>\<open>Math.random\<close> running on from question to question.
\<close>

fun shuffle_options :: "random_source \<Rightarrow> nat \<Rightarrow> question list \<Rightarrow> question list \<times> nat" where
  "shuffle_options rnd k [] = ([], k)"
| "shuffle_options rnd k (q # qs) =
     (let (os, k1) = shuffleArray rnd k (options q);
          (qs', k2) = shuffle_options rnd k1 qs
      in (q\<lparr>options := os\<rparr> # qs', k2))"

text \<open>\<^verbatim>\<open>shuffleArray(qs).map(...)\<close>, as lines 119-122 and 193-196 both have it.\<close>

definition randomize :: "random_source \<Rightarrow> nat \<Rightarrow> question list \<Rightarrow> question list \<times> nat" where
  "randomize rnd k qs =
     (let (shuffled, k1) = shuffleArray rnd k qs in shuffle_options rnd k1 shuffled)"

text \<open>retakeCurrent (lines 191-206).\<close>

definition retakeCurrent :: "random_source \<Rightarrow> nat \<Rightarrow> app_state \<Rightarrow> app_state \<times> nat" where
  "retakeCurrent rnd k s =
     (let (reshuffledQuestions, k') = randomize rnd k (questions s)
      in (s\<lparr>step := Exam, questions := reshuffledQuestions, currentQuestionIndex := 0,
            userAnswers := Map.empty, error := None\<rparr>, k'))"

section \<open>calculateResults (lines 209-221) and the results view\<close>

record exam_results =
  correct :: nat
  total :: nat
  score :: nat

text \<open>
  The \<^verbatim>\<open>forEach((q, idx) => ...)\<close> loop with its counter. \<^verbatim>\<open>userAnswers[idx]\<close> is
  \<^verbatim>\<open>undefined\<close> at an absent key, and \<^verbatim>\<open>===\<close> against the string \<^verbatim>\<open>q.correctAnswer\<close>
  is then false.
\<close>

fun count_correct :: "(nat \<rightharpoonup> string) \<Rightarrow> nat \<Rightarrow> question list \<Rightarrow> nat \<Rightarrow> nat" where
  "count_correct answers idx [] correctCount = correctCount"
| "count_correct answers idx (q # qs) correctCount =
     count_correct answers (Suc idx) qs
       (if answers idx = Some (correctAnswer q) then correctCount + 1 else correctCount)"

definition calculateResults :: "app_state \<Rightarrow> exam_results" where
  "calculateResults s =
     (let correctCount = count_correct (userAnswers s) 0 (questions s) 0
      in \<lparr>correct = correctCount, total = length (questions s), score = correctCount * 2\<rparr>)"

text \<open>
  \<^verbatim>\<open>const isCorrect = userAns === q.correctAnswer\<close> of the breakdown (lines 412-414),
  for the question at position \<open>idx\<close>.
\<close>

definition isCorrect :: "app_state \<Rightarrow> nat \<Rightarrow> bool" where
  "isCorrect s idx = (userAnswers s idx = Some (correctAnswer (questions s ! idx)))"

section \<open>What the page offers (lines 241-455)\<close>

text \<open>
  The handlers are reached through the controls the component renders. The option
  buttons, "back" and "next" are rendered in the block guarded by
  \<^verbatim>\<open>state.step === 'exam' && state.questions.length > 0\<close>, the retake and new-file
  buttons in the block guarded by \<^verbatim>\<open>state.step === 'results'\<close>.
\<close>

datatype control = OptionButton string | PrevButton | NextButton | RetakeButton | RestartButton

text \<open>
  The truthiness of \<^verbatim>\<open>state.userAnswers[state.currentQuestionIndex]\<close>, which the
  \<^verbatim>\<open>disabled\<close> attribute of "next" negates (line 347): \<^verbatim>\<open>undefined\<close> and the empty
  string are falsy.
\<close>

definition answered :: "app_state \<Rightarrow> bool" where
  "answered s =
     (case userAnswers s (currentQuestionIndex s) of None \<Rightarrow> False | Some a \<Rightarrow> a \<noteq> [])"

text \<open>
  The exam block reads \<^verbatim>\<open>state.questions[state.currentQuestionIndex].text\<close>: with the
  index out of range the render throws and the block shows no control.
\<close>

definition exam_block :: "app_state \<Rightarrow> bool" where
  "exam_block s =
     (step s = Exam \<and> length (questions s) > 0 \<and>
      currentQuestionIndex s < length (questions s))"

text \<open>A control is on the page and not disabled.\<close>

fun enabled :: "app_state \<Rightarrow> control \<Rightarrow> bool" where
  "enabled s (OptionButton option) =
     (exam_block s \<and> option \<in> set (options (questions s ! currentQuestionIndex s)))"
| "enabled s PrevButton = (exam_block s \<and> \<not> currentQuestionIndex s = 0)"
| "enabled s NextButton = (exam_block s \<and> \<not> \<not> answered s)"
| "enabled s RetakeButton = (step s = Results)"
| "enabled s RestartButton = (step s = Results)"

text \<open>The \<^verbatim>\<open>onClick\<close> of each control.\<close>

fun onClick :: "random_source \<Rightarrow> nat \<Rightarrow> app_state \<Rightarrow> control \<Rightarrow> app_state \<times> nat" where
  "onClick rnd k s (OptionButton option) = (selectAnswer s option, k)"
| "onClick rnd k s PrevButton = (prevQuestion s, k)"
| "onClick rnd k s NextButton = (nextQuestion s, k)"
| "onClick rnd k s RetakeButton = retakeCurrent rnd k s"
| "onClick rnd k s RestartButton = (restartFull s, k)"

text \<open>
  A click on the page: a control that is not rendered, or is disabled, delivers no
  event, and the state stays as it is.
\<close>

definition click :: "random_source \<Rightarrow> nat \<Rightarrow> app_state \<Rightarrow> control \<Rightarrow> app_state \<times> nat" where
  "click rnd k s c = (if enabled s c then onClick rnd k s c else (s, k))"

text \<open>
  The results block (lines 358-360) is the only caller of \<^verbatim>\<open>calculateResults\<close>; it
  is evaluated when \<^verbatim>\<open>state.step === 'results'\<close> and not otherwise.
\<close>

definition results_block :: "app_state \<Rightarrow> exam_results option" where
  "results_block s = (if step s = Results then Some (calculateResults s) else None)"

section \<open>Ingestion: handleFileUpload and generateQuestions (lines 78-157)\<close>

text \<open>
  The message texts are Russian; a string here is the UTF-8 bytes of the source's
  literal.
\<close>

text \<open>"Please upload a PDF file only." (line 147)\<close>

definition msg_pdf_only :: string where
  "msg_pdf_only = map char_of
     [208, 159, 208, 190, 208, 182, 208, 176, 208, 187, 209, 131, 208, 185, 209, 129,
      209, 130, 208, 176, 44, 32, 208, 183, 208, 176, 208, 179, 209, 128, 209, 131,
      208, 183, 208, 184, 209, 130, 208, 181, 32, 209, 130, 208, 190, 208, 187, 209,
      140, 208, 186, 208, 190, 32, 80, 68, 70, 45, 209, 132, 208, 176, 208, 185, 208,
      187, 46 :: nat]"

text \<open>"Could not read the PDF file." (line 155)\<close>

definition msg_unreadable :: string where
  "msg_unreadable = map char_of
     [208, 157, 208, 181, 32, 209, 131, 208, 180, 208, 176, 208, 187, 208, 190, 209,
      129, 209, 140, 32, 208, 191, 209, 128, 208, 190, 209, 135, 208, 184, 209, 130,
      208, 176, 209, 130, 209, 140, 32, 80, 68, 70, 32, 209, 132, 208, 176, 208, 185,
      208, 187, 46 :: nat]"

text \<open>"Could not recognise questions in this document." (line 131)\<close>

definition msg_no_questions :: string where
  "msg_no_questions = map char_of
     [208, 157, 208, 181, 32, 209, 131, 208, 180, 208, 176, 208, 187, 208, 190, 209,
      129, 209, 140, 32, 209, 128, 208, 176, 209, 129, 208, 191, 208, 190, 208, 183,
      208, 189, 208, 176, 209, 130, 209, 140, 32, 208, 178, 208, 190, 208, 191, 209,
      128, 208, 190, 209, 129, 209, 139, 32, 208, 178, 32, 209, 141, 209, 130, 208,
      190, 208, 188, 32, 208, 180, 208, 190, 208, 186, 209, 131, 208, 188, 208, 181,
      208, 189, 209, 130, 208, 181, 46 :: nat]"

text \<open>"Error while analysing the PDF: " (line 138)\<close>

definition msg_prefix :: string where
  "msg_prefix = map char_of
     [208, 158, 209, 136, 208, 184, 208, 177, 208, 186, 208, 176, 32, 208, 191, 209,
      128, 208, 184, 32, 208, 176, 208, 189, 208, 176, 208, 187, 208, 184, 208, 183,
      208, 181, 32, 80, 68, 70, 58, 32 :: nat]"

text \<open>"try another file" (line 138)\<close>

definition msg_fallback :: string where
  "msg_fallback = map char_of
     [208, 191, 208, 190, 208, 191, 209, 128, 208, 190, 208, 177, 209, 131, 208, 185,
      209, 130, 208, 181, 32, 208, 180, 209, 128, 209, 131, 208, 179, 208, 190, 208,
      185, 32, 209, 132, 208, 176, 208, 185, 208, 187 :: nat]"

text \<open>\<^verbatim>\<open>e.target.files?.[0]\<close>: no file, or a file with its \<^verbatim>\<open>type\<close>.\<close>

datatype upload = NoFile | File string

text \<open>
  The synchronous part of handleFileUpload (lines 144-149): the new state, and whether
  the extraction of the text is started.
\<close>

definition handleFileUpload_check :: "app_state \<Rightarrow> upload \<Rightarrow> app_state \<times> bool" where
  "handleFileUpload_check prev f =
     (case f of
        NoFile \<Rightarrow> (prev, False)
      | File ftype \<Rightarrow>
          if ftype \<noteq> ''application/pdf''
          then (prev\<lparr>error := Some msg_pdf_only\<rparr>, False)
          else (prev, True))"

text \<open>The \<^verbatim>\<open>catch\<close> of handleFileUpload (lines 154-156), when the extraction throws.\<close>

definition extraction_failed :: "app_state \<Rightarrow> app_state" where
  "extraction_failed prev = prev\<lparr>error := Some msg_unreadable\<rparr>"

text \<open>The first statement of generateQuestions (line 79).\<close>

definition generateQuestions_begin :: "app_state \<Rightarrow> app_state" where
  "generateQuestions_begin prev = prev\<lparr>step := Parsing, isLoading := True, error := None\<rparr>"

text \<open>
  What the awaited call and \<^verbatim>\<open>JSON.parse\<close> come to: an exception with its
  \<^verbatim>\<open>message\<close> (which may be missing), or parsed data with its \<^verbatim>\<open>questions\<close> field
  (which may be missing), typed as the source types it.
\<close>

datatype gen_outcome = Threw "string option" | Parsed "question list option"

text \<open>The updater of the \<^verbatim>\<open>catch\<close> (lines 133-140); \<^verbatim>\<open>||\<close> takes the fallback for a falsy message.\<close>

definition generateQuestions_catch :: "string option \<Rightarrow> app_state \<Rightarrow> app_state" where
  "generateQuestions_catch message prev =
     prev\<lparr>step := Upload, isLoading := False,
          error := Some (msg_prefix @
            (case message of None \<Rightarrow> msg_fallback
             | Some m \<Rightarrow> if m = [] then msg_fallback else m))\<rparr>"

text \<open>
  The rest of generateQuestions (lines 116-140), run when the awaited call settles,
  on the state as it is then.
\<close>

definition generateQuestions_settle ::
    "random_source \<Rightarrow> nat \<Rightarrow> gen_outcome \<Rightarrow> app_state \<Rightarrow> app_state \<times> nat" where
  "generateQuestions_settle rnd k outcome prev =
     (case outcome of
        Threw message \<Rightarrow> (generateQuestions_catch message prev, k)
      | Parsed None \<Rightarrow> (generateQuestions_catch (Some msg_no_questions) prev, k)
      | Parsed (Some qs) \<Rightarrow>
          if length qs > 0
          then (let (randomizedQuestions, k') = randomize rnd k qs
                in (prev\<lparr>step := Exam, questions := randomizedQuestions,
                          isLoading := False\<rparr>, k'))
          else (generateQuestions_catch (Some msg_no_questions) prev, k))"


section \<open>Sample sessions\<close>

text \<open>Three questions and a few sessions over them, for the concrete instances below.\<close>

definition qA :: question where
  "qA = \<lparr>qid = 1, qtext = ''Q1'', options = [''a'', ''b''], correctAnswer = ''a'',
          explanation = None\<rparr>"

definition qB :: question where
  "qB = \<lparr>qid = 2, qtext = ''Q2'', options = [''c'', ''d''], correctAnswer = ''d'',
          explanation = Some ''why''\<rparr>"

definition qC :: question where
  "qC = \<lparr>qid = 3, qtext = ''Q3'', options = [''e'', ''f''], correctAnswer = ''e'',
          explanation = None\<rparr>"

text \<open>A two-question exam just started.\<close>

definition exam_start :: app_state where
  "exam_start =
     \<lparr>step = Exam, questions = [qA, qB], currentQuestionIndex = 0,
      userAnswers = Map.empty, isLoading = False, error = None\<rparr>"

text \<open>The same exam on its last question, the first answered and the last not.\<close>

definition exam_last :: app_state where
  "exam_last =
     \<lparr>step = Exam, questions = [qA, qB], currentQuestionIndex = 1,
      userAnswers = [0 \<mapsto> ''a''], isLoading = False, error = None\<rparr>"

text \<open>The same exam finished, the first answer right and the second wrong.\<close>

definition exam_done :: app_state where
  "exam_done =
     \<lparr>step = Results, questions = [qA, qB], currentQuestionIndex = 1,
      userAnswers = [0 \<mapsto> ''a'', 1 \<mapsto> ''c''], isLoading = False, error = None\<rparr>"

text \<open>A random source whose every draw is 0.\<close>

definition zero_draws :: random_source where
  "zero_draws = (\<lambda>k. (0, 0))"

section \<open>Outcomes of an ingestion\<close>

text \<open>
  The outcome takes the \<^verbatim>\<open>catch\<close> branch: an exception, a missing \<^verbatim>\<open>questions\<close> field,
  or a list that fails \<^verbatim>\<open>data.questions.length > 0\<close> (line 117, whose \<^verbatim>\<open>else\<close> throws).
\<close>

definition failed :: "gen_outcome \<Rightarrow> bool" where
  "failed outcome = (case outcome of Parsed (Some qs) \<Rightarrow> \<not> length qs > 0 | _ \<Rightarrow> True)"

text \<open>The text that follows the prefix in the error of the \<^verbatim>\<open>catch\<close> branch.\<close>

definition failure_message :: "gen_outcome \<Rightarrow> string" where
  "failure_message outcome =
     (case outcome of
        Threw None \<Rightarrow> msg_fallback
      | Threw (Some m) \<Rightarrow> if m = [] then msg_fallback else m
      | Parsed _ \<Rightarrow> msg_no_questions)"

text \<open>
  Two files chosen one after the other while the first is still being read: both
  calls of generateQuestions reach line 79, then the results arrive. Here the first
  result to arrive is a list with one question and the second is an exception.
\<close>

definition overlap_failure :: app_state where
  "overlap_failure =
     fst (generateQuestions_settle zero_draws 1 (Threw (Some ''quota''))
       (fst (generateQuestions_settle zero_draws 0 (Parsed (Some [qA]))
          (generateQuestions_begin (generateQuestions_begin initial_state)))))"

text \<open>
  The same two calls; the result of the second call (question 2) arrives first, the
  result of the first call (question 1) arrives after it.
\<close>

definition overlap_stale :: app_state where
  "overlap_stale =
     fst (generateQuestions_settle zero_draws 1 (Parsed (Some [qA]))
       (fst (generateQuestions_settle zero_draws 0 (Parsed (Some [qB]))
          (generateQuestions_begin (generateQuestions_begin initial_state)))))"

section \<open>Vocabulary of the statements about shuffling\<close>

text \<open>
  \<open>q'\<close> is the question \<open>q\<close> with its options in some order: every other field is
  the same, and the options are the same multiset.
\<close>

definition same_question :: "question \<Rightarrow> question \<Rightarrow> bool" where
  "same_question q q' = (q'\<lparr>options := options q\<rparr> = q \<and> mset (options q') = mset (options q))"

text \<open>A store holding one array of three strings.\<close>

definition abc_store :: "string store" where
  "abc_store = [[''a'', ''b'', ''c'']]"

section \<open>The percentage of the results block (line 360)\<close>

text \<open>
  \<^verbatim>\<open>Math.round((results.correct / results.total) * 100)\<close>: a division and a
  multiplication of JavaScript numbers, each rounded, and \<^verbatim>\<open>Math.round\<close>, which is
  exact. The operands are an array length and a count below it, so the quotient is zero
  or lies between \<open>2\<^sup>-\<^sup>3\<^sup>2\<close> and 1.
\<close>

text \<open>\<^verbatim>\<open>results.correct / results.total\<close>, for a divisor that is not zero.\<close>

definition js_div :: "nat \<Rightarrow> nat \<Rightarrow> double" where
  "js_div c t = round_to_double (int c) (int t) 0"

text \<open>\<^verbatim>\<open>(...) * 100\<close>.\<close>

definition js_times_100 :: "double \<Rightarrow> double" where
  "js_times_100 d = js_times d 100"

text \<open>\<^verbatim>\<open>Math.round\<close>: the nearest integer, a tie going up.\<close>

definition Math_round :: "double \<Rightarrow> int" where
  "Math_round d = \<lfloor>dval d + 1/2\<rfloor>"

text \<open>
  The number the results block shows. With a total of zero the quotient is
  \<^verbatim>\<open>0 / 0\<close>, which is \<^verbatim>\<open>NaN\<close> (and a positive count over zero would be
  \<^verbatim>\<open>Infinity\<close>); \<^verbatim>\<open>NaN * 100\<close> and \<^verbatim>\<open>Math.round(NaN)\<close> are \<^verbatim>\<open>NaN\<close> again.
\<close>

datatype js_number = NaN | PosInfinity | Num int

definition percentage :: "exam_results \<Rightarrow> js_number" where
  "percentage results =
     (if total results = 0 then (if correct results = 0 then NaN else PosInfinity)
      else Num (Math_round (js_times_100 (js_div (correct results) (total results)))))"

text \<open>
  A finished exam of forty questions, each with the options a and b and the right answer
  a, the first 23 answered right and the rest wrong.
\<close>

definition forty_questions :: "question list" where
  "forty_questions =
     map (\<lambda>i. \<lparr>qid = int i, qtext = ''Q'', options = [''a'', ''b''], correctAnswer = ''a'',
               explanation = None\<rparr>) [0..<40]"

definition forty_done :: app_state where
  "forty_done =
     \<lparr>step = Results, questions = forty_questions, currentQuestionIndex = 39,
      userAnswers = (\<lambda>i. if i < 23 then Some ''a'' else if i < 40 then Some ''b'' else None),
      isLoading = False, error = None\<rparr>"

section \<open>Properties\<close>

subsection \<open>Rounding\<close>

lemma bitlen_pos: "0 < n \<Longrightarrow> 1 \<le> bitlen n"
proof (induction n rule: bitlen.induct)
  case (1 n)
  show ?case
  proof (cases "0 < n div 2")
    case True
    then show ?thesis using "1.IH" "1.prems" by (subst bitlen.simps) simp
  next
    case False
    then have "bitlen (n div 2) = 0" by (subst bitlen.simps) simp
    then show ?thesis using "1.prems" by (subst bitlen.simps) simp
  qed
qed

lemma bitlen_bounds:
  "0 < n \<Longrightarrow> 2 ^ nat (bitlen n - 1) \<le> n \<and> n < 2 ^ nat (bitlen n)"
proof (induction n rule: bitlen.induct)
  case (1 n)
  have step: "bitlen n = 1 + bitlen (n div 2)"
    using "1.prems" by (subst bitlen.simps) simp
  show ?case
  proof (cases "0 < n div 2")
    case False
    then have "n = 1" using "1.prems" by linarith
    moreover have "bitlen (n div 2) = 0" using False by (subst bitlen.simps) simp
    ultimately show ?thesis using step by simp
  next
    case True
    have ih: "2 ^ nat (bitlen (n div 2) - 1) \<le> n div 2" "n div 2 < 2 ^ nat (bitlen (n div 2))"
      using "1.IH" "1.prems" True by simp_all
    have p: "1 \<le> bitlen (n div 2)" by (rule bitlen_pos [OF True])
    have e1: "nat (bitlen n - 1) = Suc (nat (bitlen (n div 2) - 1))" using step p by simp
    have e2: "nat (bitlen n) = Suc (nat (bitlen (n div 2)))" using step p by simp
    have "2 * 2 ^ nat (bitlen (n div 2) - 1) \<le> 2 * (n div 2)" using ih(1) by simp
    also have "\<dots> \<le> n" by simp
    finally have lo: "2 ^ nat (bitlen n - 1) \<le> n" unfolding e1 by simp
    have "n div 2 + 1 \<le> 2 ^ nat (bitlen (n div 2))" using ih(2) by simp
    then have "2 * (n div 2) + 2 \<le> 2 * 2 ^ nat (bitlen (n div 2))" by simp
    moreover have "n < 2 * (n div 2) + 2" by linarith
    ultimately have hi: "n < 2 ^ nat (bitlen n)" unfolding e2 by simp
    from lo hi show ?thesis by simp
  qed
qed

lemma bitlen_bounds_rat:
  assumes "0 < n"
  shows "(2::rat) powi (bitlen n - 1) \<le> of_int n" "of_int n < (2::rat) powi (bitlen n)"
proof -
  have p: "1 \<le> bitlen n" by (rule bitlen_pos [OF assms])
  have b: "2 ^ nat (bitlen n - 1) \<le> n" "n < 2 ^ nat (bitlen n)"
    using bitlen_bounds [OF assms] by simp_all
  have "(of_int (2 ^ nat (bitlen n - 1)) :: rat) \<le> of_int n" using b(1) by (simp only: of_int_le_iff)
  then show "(2::rat) powi (bitlen n - 1) \<le> of_int n" using p by (simp add: power_int_def)
  have "(of_int n :: rat) < of_int (2 ^ nat (bitlen n))" using b(2) by (simp only: of_int_less_iff)
  then show "of_int n < (2::rat) powi (bitlen n)" using p by (simp add: power_int_def)
qed

lemma ratio_exponent_bounds:
  assumes "0 < a" "0 < b"
  shows "(2::rat) powi (ratio_exponent a b) \<le> of_int a / of_int b"
    and "of_int a / of_int b < (2::rat) powi (ratio_exponent a b + 1)"
proof -
  let ?d = "bitlen a - bitlen b"
  let ?x = "(of_int a / of_int b) :: rat"
  have bp: "(0::rat) < of_int b" using assms by simp
  have lo: "(2::rat) powi (?d - 1) \<le> ?x"
  proof -
    have "(2::rat) powi (?d - 1) * of_int b \<le> 2 powi (?d - 1) * 2 powi (bitlen b)"
      using bitlen_bounds_rat(2) [OF assms(2)] by (simp add: mult_left_mono)
    also have "\<dots> = 2 powi (bitlen a - 1)"
      by (simp flip: power_int_add)
    also have "\<dots> \<le> of_int a" by (rule bitlen_bounds_rat(1) [OF assms(1)])
    finally show ?thesis using bp by (simp add: pos_le_divide_eq)
  qed
  have hi: "?x < (2::rat) powi (?d + 1)"
  proof -
    have "of_int a < (2::rat) powi (bitlen a)" by (rule bitlen_bounds_rat(2) [OF assms(1)])
    also have "\<dots> = 2 powi (?d + 1) * 2 powi (bitlen b - 1)"
      by (simp flip: power_int_add)
    also have "\<dots> \<le> 2 powi (?d + 1) * of_int b"
      using bitlen_bounds_rat(1) [OF assms(2)] by (simp add: mult_left_mono)
    finally show ?thesis using bp by (simp add: pos_divide_less_eq)
  qed
  show "(2::rat) powi (ratio_exponent a b) \<le> ?x"
    using lo by (simp add: ratio_exponent_def Let_def)
  show "?x < (2::rat) powi (ratio_exponent a b + 1)"
    using hi by (auto simp: ratio_exponent_def Let_def)
qed

lemma round_half_even_err: "\<bar>of_int (round_half_even x) - x\<bar> \<le> 1/2"
proof -
  have "of_int \<lfloor>x\<rfloor> \<le> x" "x < of_int \<lfloor>x\<rfloor> + 1" by linarith+
  then show ?thesis by (auto simp: round_half_even_def Let_def abs_le_iff)
qed


lemma round_half_even_nonneg: "0 \<le> x \<Longrightarrow> 0 \<le> round_half_even x"
  by (auto simp: round_half_even_def Let_def)

lemma round_to_double_nonneg:
  assumes "0 \<le> a" "0 < b"
  shows "0 \<le> fst (round_to_double a b k)"
proof (cases "a = 0")
  case True
  then show ?thesis by (simp add: round_to_double_def)
next
  case False
  have "(0::rat) \<le> of_int a / of_int b * 2 powi (52 - ratio_exponent a b)"
    using assms by simp
  then show ?thesis using False
    by (simp add: round_to_double_def Let_def round_half_even_nonneg)
qed

lemma round_to_double_err:
  assumes "0 \<le> a" "0 < b"
  shows "\<bar>dval (round_to_double a b k) - of_int a / of_int b * 2 powi k\<bar>
           \<le> of_int a / of_int b * 2 powi k / 2 ^ 53"
proof (cases "a = 0")
  case True
  then show ?thesis by (simp add: round_to_double_def dval_def)
next
  case False
  then have a: "0 < a" using assms(1) by simp
  let ?e = "ratio_exponent a b"
  let ?x = "(of_int a / of_int b) :: rat"
  let ?M = "?x * 2 powi (52 - ?e)"
  let ?m = "round_half_even ?M"
  have lo: "(2::rat) powi ?e \<le> ?x" by (rule ratio_exponent_bounds(1) [OF a assms(2)])
  define P where "P = (2::rat) powi (?e - 52 + k)"
  have d: "dval (round_to_double a b k) = of_int ?m * P"
    using False by (simp add: round_to_double_def dval_def Let_def P_def)
  have pw: "(2::rat) powi (52 - ?e) * 2 powi (?e - 52 + k) = 2 powi k"
    by (simp flip: power_int_add)
  have s: "?M * P = ?x * 2 powi k"
    unfolding P_def mult.assoc pw ..
  have "dval (round_to_double a b k) - ?x * 2 powi k = of_int ?m * P - ?M * P"
    unfolding d s ..
  also have "\<dots> = (of_int ?m - ?M) * P" by (simp only: left_diff_distrib)
  finally have "\<bar>dval (round_to_double a b k) - ?x * 2 powi k\<bar>
        = \<bar>of_int ?m - ?M\<bar> * 2 powi (?e - 52 + k)"
    by (simp add: abs_mult P_def)
  also have "\<dots> \<le> 1/2 * 2 powi (?e - 52 + k)"
    by (rule mult_right_mono [OF round_half_even_err]) simp
  also have "\<dots> = 2 powi ?e * 2 powi k / 2 ^ 53"
  proof -
    have "(2::rat) powi (?e - 52 + k) = 2 powi ((?e + k) + (- 52))"
      by (simp add: algebra_simps)
    also have "\<dots> = 2 powi (?e + k) * 2 powi (- 52)"
      by (rule power_int_add) simp
    also have "(2::rat) powi (?e + k) = 2 powi ?e * 2 powi k"
      by (rule power_int_add) simp
    finally have "(2::rat) powi (?e - 52 + k) = 2 powi ?e * 2 powi k * 2 powi (- 52)" .
    then show ?thesis by (simp add: power_int_minus)
  qed
  also have "\<dots> \<le> ?x * 2 powi k / 2 ^ 53"
  proof -
    have "2 powi ?e * 2 powi k \<le> ?x * 2 powi k"
      by (rule mult_right_mono [OF lo]) simp
    then show ?thesis by (rule divide_right_mono) simp
  qed
  finally show ?thesis .
qed

lemma round_half_even_le: "round_half_even x \<le> \<lfloor>x\<rfloor> + 1"
  by (simp add: round_half_even_def Let_def)

lemma round_to_double_le:
  assumes "0 \<le> a" "0 < b"
  shows "fst (round_to_double a b k) \<le> 2 ^ 53"
proof (cases "a = 0")
  case True
  then show ?thesis by (simp add: round_to_double_def)
next
  case False
  then have a: "0 < a" using assms(1) by simp
  let ?e = "ratio_exponent a b"
  let ?x = "(of_int a / of_int b) :: rat"
  let ?M = "?x * 2 powi (52 - ?e)"
  have "?M < 2 powi (?e + 1) * 2 powi (52 - ?e)"
    by (rule mult_strict_right_mono [OF ratio_exponent_bounds(2) [OF a assms(2)]]) simp
  also have "\<dots> = 2 powi ((?e + 1) + (52 - ?e))"
    by (rule power_int_add [symmetric]) simp
  also have "\<dots> = 2 ^ 53" by simp
  finally have "?M < of_int (2 ^ 53)" by simp
  then have "\<lfloor>?M\<rfloor> < 2 ^ 53" by (simp only: floor_less_iff)
  then have "round_half_even ?M \<le> 2 ^ 53" using round_half_even_le [of ?M] by linarith
  then show ?thesis using False by (simp add: round_to_double_def Let_def)
qed

lemma js_times_nonneg:
  assumes "0 \<le> fst d" "0 \<le> n"
  shows "0 \<le> dval (js_times d n)"
proof -
  have "0 \<le> fst (round_to_double (fst d * n) 1 (snd d))"
    by (rule round_to_double_nonneg) (use assms in simp_all)
  then show ?thesis by (simp add: js_times_def dval_def)
qed

lemma js_times_err:
  assumes "0 \<le> fst d" "0 \<le> n"
  shows "\<bar>dval (js_times d n) - dval d * of_int n\<bar> \<le> dval d * of_int n / 2 ^ 53"
proof -
  have "\<bar>dval (round_to_double (fst d * n) 1 (snd d))
          - of_int (fst d * n) / of_int 1 * 2 powi (snd d)\<bar>
        \<le> of_int (fst d * n) / of_int 1 * 2 powi (snd d) / 2 ^ 53"
    by (rule round_to_double_err) (use assms in simp_all)
  moreover have "(of_int (fst d * n) / of_int 1 * 2 powi (snd d) :: rat) = dval d * of_int n"
    by (simp add: dval_def mult.commute mult.left_commute)
  ultimately show ?thesis by (simp only: js_times_def)
qed

lemma unit_double_max:
  assumes "unit_double d"
  shows "dval d \<le> 1 - 1 / 2 ^ 53"
proof -
  obtain m e where d: "d = (m, e)" by (cases d)
  have m: "0 \<le> m" "m \<le> 2 ^ 53" and v: "of_int m * (2::rat) powi e < 1"
    using assms by (simp_all add: unit_double_def d dval_def)
  consider "0 \<le> e" | "e < 0" "- e \<le> 53" | "53 < - e" by linarith
  then have "of_int m * (2::rat) powi e \<le> 1 - 1 / 2 ^ 53"
  proof cases
    case 1
    have "m = 0"
    proof (rule ccontr)
      assume "m \<noteq> 0"
      then have m1: "(1::rat) \<le> of_int m" using m(1) by simp
      have e1: "(1::rat) \<le> 2 powi e" using 1 by (simp add: one_le_power_int)
      have "(1::rat) * 1 \<le> of_int m * 2 powi e"
        by (rule mult_mono [OF m1 e1]) (use m(1) in simp_all)
      then show False using v by simp
    qed
    then show ?thesis by simp
  next
    case 2
    define s where "s = nat (- e)"
    have s: "s \<le> 53" "e = - int s" using 2 by (simp_all add: s_def)
    have pe: "(2::rat) powi e = 1 / 2 ^ s" by (simp add: s(2) power_int_minus field_simps)
    have "of_int m / (2::rat) ^ s < 1" using v by (simp add: pe)
    then have "(of_int m :: rat) < of_int (2 ^ s)" by (simp add: pos_divide_less_eq)
    then have "m < 2 ^ s" by (simp only: of_int_less_iff)
    then have "m \<le> 2 ^ s - 1" by simp
    then have "(of_int m :: rat) \<le> of_int (2 ^ s - 1)" by (simp only: of_int_le_iff)
    then have "of_int m / (2::rat) ^ s \<le> (2 ^ s - 1) / 2 ^ s"
      by (simp add: divide_right_mono)
    also have "\<dots> = 1 - 1 / 2 ^ s" by (simp add: field_simps)
    also have "\<dots> \<le> 1 - 1 / 2 ^ 53"
    proof -
      have "(2::rat) ^ s \<le> 2 ^ 53" by (rule power_increasing [OF s(1)]) simp
      then have "1 / (2::rat) ^ 53 \<le> 1 / 2 ^ s" by (simp add: frac_le)
      then show ?thesis by simp
    qed
    finally show ?thesis by (simp add: pe)
  next
    case 3
    then have e54: "e \<le> - 54" by simp
    have "(2::rat) powi e \<le> 2 powi (- 54)" by (rule power_int_increasing [OF e54]) simp
    then have "of_int m * (2::rat) powi e \<le> of_int (2 ^ 53) * 2 powi (- 54)"
      using m by (intro mult_mono) simp_all
    also have "\<dots> \<le> 1 - 1 / 2 ^ 53" by (simp add: power_int_minus)
    finally show ?thesis .
  qed
  then show ?thesis by (simp add: d dval_def)
qed

lemma div_times_error:
  assumes "0 \<le> a" "0 < b" "0 \<le> n"
  shows "\<bar>dval (js_times (round_to_double a b 0) n) - of_int a / of_int b * of_int n\<bar>
           \<le> 3 * (of_int a / of_int b * of_int n) / 2 ^ 53"
    and "\<bar>dval (round_to_double a b 0) - of_int a / of_int b\<bar> \<le> of_int a / of_int b / 2 ^ 53"
proof -
  define eps where "eps = (1 / 2 ^ 53 :: rat)"
  define y where "y = (of_int a / of_int b :: rat)"
  define q where "q = dval (round_to_double a b 0)"
  define N where "N = (of_int n :: rat)"
  define p where "p = dval (js_times (round_to_double a b 0) n)"
  have e: "0 \<le> eps" "eps \<le> 1" by (simp_all add: eps_def)
  have y0: "0 \<le> y" using assms by (simp add: y_def)
  have N0: "0 \<le> N" using assms by (simp add: N_def)
  have "\<bar>q - y * 2 powi 0\<bar> \<le> y * 2 powi 0 / 2 ^ 53"
    unfolding q_def y_def by (rule round_to_double_err [OF assms(1,2)])
  then have q: "\<bar>q - y\<bar> \<le> y * eps" by (simp add: eps_def)
  then show "\<bar>dval (round_to_double a b 0) - of_int a / of_int b\<bar> \<le> of_int a / of_int b / 2 ^ 53"
    by (simp add: q_def y_def eps_def)
  have f: "0 \<le> fst (round_to_double a b 0)" by (rule round_to_double_nonneg [OF assms(1,2)])
  have "\<bar>p - q * N\<bar> \<le> q * N / 2 ^ 53"
    unfolding p_def q_def N_def by (rule js_times_err [OF f assms(3)])
  then have p: "\<bar>p - q * N\<bar> \<le> (q * N) * eps" by (simp add: eps_def)
  have "q - y \<le> y * eps" using q by (simp only: abs_le_iff)
  then have "q \<le> y * (1 + eps)" by (simp add: algebra_simps)
  also have "\<dots> \<le> y * 2" by (rule mult_left_mono) (use e y0 in simp_all)
  finally have q2: "q \<le> y * 2" .
  have qN: "q * N \<le> (y * 2) * N" by (rule mult_right_mono [OF q2 N0])
  have "p - y * N = (p - q * N) + (q - y) * N" by (simp add: algebra_simps)
  then have "\<bar>p - y * N\<bar> \<le> \<bar>p - q * N\<bar> + \<bar>(q - y) * N\<bar>"
    by (simp only: abs_triangle_ineq)
  moreover have "\<bar>(q - y) * N\<bar> = \<bar>q - y\<bar> * N" using N0 by (simp add: abs_mult)
  ultimately have "\<bar>p - y * N\<bar> \<le> \<bar>p - q * N\<bar> + \<bar>q - y\<bar> * N" by (simp only:)
  also have "\<dots> \<le> (q * N) * eps + (y * eps) * N"
    by (rule add_mono [OF p mult_right_mono [OF q N0]])
  also have "\<dots> \<le> ((y * 2) * N) * eps + (y * eps) * N"
    by (rule add_right_mono [OF mult_right_mono [OF qN e(1)]])
  also have "\<dots> = 3 * (y * N) / 2 ^ 53" by (simp add: eps_def algebra_simps)
  finally show "\<bar>dval (js_times (round_to_double a b 0) n) - of_int a / of_int b * of_int n\<bar>
           \<le> 3 * (of_int a / of_int b * of_int n) / 2 ^ 53"
    by (simp add: p_def y_def N_def)
qed

lemma ratio_exponent_lower:
  assumes "0 < a" "0 < b" "(2::rat) powi l \<le> of_int a / of_int b"
  shows "l \<le> ratio_exponent a b"
proof (rule ccontr)
  assume "\<not> l \<le> ratio_exponent a b"
  then have le: "ratio_exponent a b + 1 \<le> l" by simp
  have "(of_int a / of_int b :: rat) < 2 powi (ratio_exponent a b + 1)"
    by (rule ratio_exponent_bounds(2) [OF assms(1,2)])
  also have "\<dots> \<le> 2 powi l" by (rule power_int_increasing [OF le]) simp
  finally show False using assms(3) by simp
qed

lemma draw_exists:
  assumes "j \<le> i" "i + 1 < 2 ^ 32"
  shows "\<exists>d. unit_double d \<and> nat \<lfloor>dval (js_times d (int i + 1))\<rfloor> = j"
proof -
  define a where "a = 2 * int j + 1"
  define b where "b = 2 * (int i + 1)"
  define d where "d = round_to_double a b 0"
  define y where "y = (of_int a / of_int b :: rat)"
  define w where "w = (of_int (int j) + 1/2 :: rat)"
  define n where "n = (of_int (int i + 1) :: rat)"
  define p where "p = dval (js_times d (int i + 1))"
  have a: "0 < a" and b: "0 < b" by (simp_all add: a_def b_def)
  have n: "1 \<le> n" "n < 2 ^ 32"
  proof -
    show "1 \<le> n" by (simp add: n_def)
    have "int i + 1 < 2 ^ 32" using assms(2) by (simp flip: of_nat_less_iff)
    then have "(of_int (int i + 1) :: rat) < of_int (2 ^ 32)" by (simp only: of_int_less_iff)
    then show "n < 2 ^ 32" by (simp add: n_def)
  qed
  have yn: "y * n = w" using n(1) by (simp add: y_def a_def b_def w_def n_def field_simps)
  have w: "1/2 \<le> w" "w \<le> n - 1/2"
    using assms(1) by (simp_all add: w_def n_def)
  have w32: "w < 2 ^ 32" using w(2) n(2) by simp
  have y: "y = w / n" using yn n(1) by (simp add: field_simps)
  have f0: "0 \<le> fst d" unfolding d_def by (rule round_to_double_nonneg) (use a b in simp_all)
  have f1: "fst d \<le> 2 ^ 53" unfolding d_def by (rule round_to_double_le) (use a b in simp_all)
  have "(2::rat) powi (- 33) \<le> y"
  proof -
    have "(1/2) / (2::rat) ^ 32 \<le> w / n"
      by (rule frac_le) (use w(1) n in simp_all)
    then show ?thesis by (simp add: y power_int_minus)
  qed
  then have "- 33 \<le> ratio_exponent a b"
    unfolding y_def by (rule ratio_exponent_lower [OF a b])
  then have f2: "- 1074 \<le> snd d" using a by (simp add: d_def round_to_double_def Let_def)
  have qy: "\<bar>dval d - y\<bar> \<le> y / 2 ^ 53"
    unfolding d_def y_def by (rule div_times_error(2) [where n = 0]) (use a b in simp_all)
  have f3: "dval d < 1"
  proof -
    have "dval d - y \<le> y / 2 ^ 53" using qy by (simp only: abs_le_iff)
    then have "dval d * n \<le> (y + y / 2 ^ 53) * n"
      by (intro mult_right_mono) (use n(1) in simp_all)
    also have "\<dots> = w + w / 2 ^ 53" by (simp add: algebra_simps yn add_divide_distrib flip: yn)
    also have "\<dots> < w + 1/2" using w32 by simp
    also have "\<dots> \<le> n" using w(2) by simp
    finally have "dval d * n < 1 * n" by simp
    then show ?thesis using n(1) by (simp only: mult_less_cancel_right)
  qed
  have ud: "unit_double d" using f0 f1 f2 f3 by (simp add: unit_double_def)
  have "\<bar>p - y * n\<bar> \<le> 3 * (y * n) / 2 ^ 53"
    unfolding p_def d_def y_def n_def by (rule div_times_error(1)) (use a b in simp_all)
  then have pw: "\<bar>p - w\<bar> \<le> 3 * w / 2 ^ 53" by (simp only: yn)
  define dl where "dl = 3 * w / 2 ^ 53"
  have small: "dl < 1/2" using w32 by (simp add: dl_def)
  have "p - w \<le> dl" "- (p - w) \<le> dl"
    using pw unfolding dl_def by (simp_all only: abs_le_iff)
  then have "w - 1/2 \<le> p" "p < w + 1/2" using small by linarith+
  then have "of_int (int j) \<le> p" "p < of_int (int j) + 1"
    by (simp_all add: w_def)
  then have "\<lfloor>p\<rfloor> = int j" by (simp add: floor_eq_iff)
  then have "nat \<lfloor>dval (js_times d (int i + 1))\<rfloor> = j" by (simp add: p_def)
  then show ?thesis using ud by blast
qed

subsection \<open>Shuffling\<close>

lemma shuffle_loop_length: "length (fst (shuffle_loop rnd k i xs)) = length xs"
  by (induction i arbitrary: k xs) (simp_all add: Let_def)

lemma draw_index_le:
  assumes "unit_draws rnd"
  shows "draw_index rnd k i \<le> i"
proof -
  define u where "u = dval (rnd k)"
  define n where "n = (of_int (int i + 1) :: rat)"
  define p where "p = dval (js_times (rnd k) (int i + 1))"
  define eps where "eps = (1 / 2 ^ 53 :: rat)"
  have ud: "unit_double (rnd k)" using assms by (simp add: unit_draws_def)
  then have f: "0 \<le> fst (rnd k)" by (simp add: unit_double_def)
  have u0: "0 \<le> u" using f by (simp add: u_def dval_def)
  have u1: "u \<le> 1 - eps" unfolding u_def eps_def by (rule unit_double_max [OF ud])
  have n1: "1 \<le> n" by (simp add: n_def)
  have "\<bar>p - u * n\<bar> \<le> u * n / 2 ^ 53"
    unfolding p_def u_def n_def by (rule js_times_err [OF f]) simp
  then have "p - u * n \<le> u * n / 2 ^ 53" by (simp only: abs_le_iff)
  then have "p \<le> u * n + u * n * eps" by (simp add: eps_def)
  also have "\<dots> = (u * (1 + eps)) * n" by (simp add: algebra_simps)
  also have "\<dots> \<le> ((1 - eps) * (1 + eps)) * n"
    by (intro mult_right_mono u1) (use n1 in \<open>simp_all add: eps_def\<close>)
  also have "\<dots> < 1 * n"
    by (rule mult_strict_right_mono) (use n1 in \<open>simp_all add: eps_def\<close>)
  finally have "p < of_int (int i + 1)" by (simp add: n_def)
  then have "\<lfloor>p\<rfloor> < int i + 1" by (simp only: floor_less_iff)
  then show ?thesis by (simp add: draw_index_def p_def)
qed

lemma shuffle_loop_mset:
  assumes "unit_draws rnd"
  shows "i < length xs \<Longrightarrow> mset (fst (shuffle_loop rnd k i xs)) = mset xs"
proof (induction i arbitrary: k xs)
  case 0
  then show ?case by simp
next
  case (Suc i)
  let ?j = "draw_index rnd k (Suc i)"
  have j: "?j < length xs" using draw_index_le [OF assms, of k "Suc i"] Suc.prems by simp
  let ?xs' = "xs[Suc i := xs ! ?j, ?j := xs ! Suc i]"
  have "mset ?xs' = mset xs" using mset_swap [OF j Suc.prems] .
  moreover have "i < length ?xs'" using Suc.prems by simp
  ultimately show ?case using Suc.IH [of ?xs' "Suc k"] by (simp add: Let_def)
qed

lemma shuffle_loop_calls: "snd (shuffle_loop rnd k i xs) = k + i"
  by (induction i arbitrary: k xs) (simp_all add: Let_def)

lemma shuffleArray_mset:
  assumes "unit_draws rnd"
  shows "mset (fst (shuffleArray rnd k xs)) = mset xs"
proof (cases xs)
  case Nil
  then show ?thesis by (simp add: shuffleArray_def)
next
  case (Cons x xs')
  then have "length xs - 1 < length xs" by simp
  then show ?thesis unfolding shuffleArray_def by (rule shuffle_loop_mset [OF assms])
qed

lemma shuffle_loop_st_pure:
  "newArray < length st \<Longrightarrow>
   shuffle_loop_st rnd k newArray i st =
     (st[newArray := fst (shuffle_loop rnd k i (st ! newArray))],
      snd (shuffle_loop rnd k i (st ! newArray)))"
proof (induction i arbitrary: k st)
  case 0
  then show ?case by simp
next
  case (Suc i)
  then show ?case by (simp add: Let_def)
qed

lemma shuffleArray_st_pure:
  "shuffleArray_st rnd k st array =
     (length st, st @ [fst (shuffleArray rnd k (st ! array))],
      snd (shuffleArray rnd k (st ! array)))"
  by (simp add: shuffleArray_st_def shuffle_loop_st_pure shuffleArray_def Let_def)

lemma shuffle_loop_cong:
  "(\<And>m. k \<le> m \<Longrightarrow> m < k + i \<Longrightarrow> rnd m = rnd' m) \<Longrightarrow>
   shuffle_loop rnd k i xs = shuffle_loop rnd' k i xs"
proof (induction i arbitrary: k xs)
  case 0
  then show ?case by simp
next
  case (Suc i)
  have "draw_index rnd k (Suc i) = draw_index rnd' k (Suc i)"
    using Suc.prems [of k] by (simp add: draw_index_def)
  moreover have "shuffle_loop rnd (Suc k) i zs = shuffle_loop rnd' (Suc k) i zs"
    for zs :: "'a list"
    by (rule Suc.IH) (simp add: Suc.prems)
  ultimately show ?case by (simp add: Let_def)
qed

lemma shuffleArray_cong:
  "(\<And>m. k \<le> m \<Longrightarrow> m < k + (length xs - 1) \<Longrightarrow> rnd m = rnd' m) \<Longrightarrow>
   shuffleArray rnd k xs = shuffleArray rnd' k xs"
  unfolding shuffleArray_def by (rule shuffle_loop_cong)

lemma shuffleArray_calls: "snd (shuffleArray rnd k xs) = k + (length xs - 1)"
  by (simp add: shuffleArray_def shuffle_loop_calls)

lemma draw_index_exists:
  assumes "j \<le> i" "i + 1 < 2 ^ 32"
  shows "\<exists>d. unit_double d \<and> (\<forall>rnd. rnd k = d \<longrightarrow> draw_index rnd k i = j)"
  using draw_exists [OF assms] by (auto simp: draw_index_def)


lemma agree_above_zero:
  assumes "mset xs = mset ys" "\<And>m. 0 < m \<Longrightarrow> m < length xs \<Longrightarrow> xs ! m = ys ! m"
  shows "xs = ys"
proof -
  have len: "length xs = length ys" using assms(1) by (metis size_mset)
  show ?thesis
  proof (cases xs)
    case Nil
    then show ?thesis using len by simp
  next
    case (Cons x xs')
    then obtain y ys' where ys: "ys = y # ys'" using len by (cases ys) auto
    have "xs' = ys'"
    proof (rule nth_equalityI)
      show "length xs' = length ys'" using len Cons ys by simp
    next
      fix m assume "m < length xs'"
      then show "xs' ! m = ys' ! m" using assms(2) [of "Suc m"] Cons ys by simp
    qed
    then show ?thesis using assms(1) Cons ys by simp
  qed
qed

lemma shuffle_loop_reach:
  shows "length xs < 2 ^ 32 \<Longrightarrow> i < length xs \<Longrightarrow> (\<And>m. i < m \<Longrightarrow> m < length xs \<Longrightarrow> xs ! m = ys ! m) \<Longrightarrow> mset xs = mset ys \<Longrightarrow>
         \<exists>rnd. unit_draws rnd \<and> fst (shuffle_loop rnd k i xs) = ys"
proof (induction i arbitrary: k xs)
  case 0
  have "xs = ys" using agree_above_zero [OF "0.prems"(4)] "0.prems"(3) by blast
  moreover have "unit_draws (\<lambda>_. (0, 0))"
    by (simp add: unit_draws_def unit_double_def dval_def)
  ultimately show ?case by auto
next
  case (Suc i)
  have len: "length xs = length ys" using Suc.prems(4) by (metis size_mset)
  let ?n = "Suc (Suc i)"
  have dr: "drop ?n xs = drop ?n ys"
  proof (rule nth_equalityI)
    show "length (drop ?n xs) = length (drop ?n ys)" using len by simp
  next
    fix m assume "m < length (drop ?n xs)"
    then show "drop ?n xs ! m = drop ?n ys ! m"
      using Suc.prems(3) [of "?n + m"] len by simp
  qed
  have "mset (take ?n xs) + mset (drop ?n xs) = mset (take ?n ys) + mset (drop ?n ys)"
    using Suc.prems(4) by (metis append_take_drop_id mset_append)
  then have tk: "mset (take ?n xs) = mset (take ?n ys)" using dr by simp
  have "ys ! Suc i \<in> set (take ?n ys)"
    using Suc.prems(2) len by (simp add: in_set_conv_nth) (metis lessI nth_take)
  then have "ys ! Suc i \<in> set (take ?n xs)" using tk by (metis set_mset_mset)
  then obtain j where j: "j < ?n" "j < length xs" "xs ! j = ys ! Suc i"
    by (auto simp: in_set_conv_nth)
  let ?xs' = "xs[Suc i := xs ! j, j := xs ! Suc i]"
  have m': "mset ?xs' = mset ys" using mset_swap [OF j(2) Suc.prems(2)] Suc.prems(4) by simp
  have ag: "?xs' ! m = ys ! m" if "i < m" "m < length ?xs'" for m
  proof (cases "m = Suc i")
    case True
    then show ?thesis using j Suc.prems(2) by (cases "j = Suc i") simp_all
  next
    case False
    then have "Suc i < m" using that by simp
    then show ?thesis using j that Suc.prems(3) [of m] by simp
  qed
  have il: "i < length ?xs'" using Suc.prems(2) by simp
  have sz: "length ?xs' < 2 ^ 32" using Suc.prems(1) by simp
  from Suc.IH [OF sz il ag m', of "Suc k"]
  obtain rnd' where r': "unit_draws rnd'" "fst (shuffle_loop rnd' (Suc k) i ?xs') = ys"
    by blast
  have jle: "j \<le> Suc i" using j(1) by simp
  have "Suc i + 1 < (2::nat) ^ 32" using Suc.prems(1,2) by simp
  from draw_index_exists [OF jle this, of k]
  obtain d where d: "unit_double d" "\<And>rnd. rnd k = d \<Longrightarrow> draw_index rnd k (Suc i) = j"
    by blast
  let ?rnd = "rnd'(k := d)"
  have dj: "draw_index ?rnd k (Suc i) = j" by (rule d(2)) simp
  have c: "shuffle_loop ?rnd (Suc k) i ?xs' = shuffle_loop rnd' (Suc k) i ?xs'"
    by (rule shuffle_loop_cong) simp
  have u: "unit_draws ?rnd"
    using r'(1) d(1) by (simp add: unit_draws_def)
  have "fst (shuffle_loop ?rnd k (Suc i) xs) = ys"
    using dj c r'(2) by (simp add: Let_def)
  then show ?case using u by blast
qed

lemma shuffleArray_reach:
  assumes "mset ys = mset xs" "array_sized xs"
  shows "\<exists>rnd. unit_draws rnd \<and> fst (shuffleArray rnd k xs) = ys"
proof (cases xs)
  case Nil
  then have "fst (shuffleArray (\<lambda>_. (0, 0)) k xs) = ys" using assms by (simp add: shuffleArray_def)
  moreover have "unit_draws (\<lambda>_. (0, 0))"
    by (simp add: unit_draws_def unit_double_def dval_def)
  ultimately show ?thesis by blast
next
  case (Cons x xs')
  then have i: "length xs - 1 < length xs" by simp
  have sz: "length xs < 2 ^ 32" using assms(2) by (simp add: array_sized_def)
  have "\<exists>rnd. unit_draws rnd \<and> fst (shuffle_loop rnd k (length xs - 1) xs) = ys"
    by (rule shuffle_loop_reach [OF sz i]) (use assms in simp_all)
  then show ?thesis by (simp add: shuffleArray_def)
qed


lemma shuffle_loop_map:
  assumes "unit_draws rnd"
  shows "i < length xs \<Longrightarrow>
    shuffle_loop rnd k i (map f xs) = (map f (fst (shuffle_loop rnd k i xs)), snd (shuffle_loop rnd k i xs))"
proof (induction i arbitrary: k xs)
  case 0
  then show ?case by simp
next
  case (Suc i)
  let ?j = "draw_index rnd k (Suc i)"
  have j: "?j < length xs" using draw_index_le [OF assms, of k "Suc i"] Suc.prems by simp
  have "(map f xs)[Suc i := map f xs ! ?j, ?j := map f xs ! Suc i]
          = map f (xs[Suc i := xs ! ?j, ?j := xs ! Suc i])"
    using j Suc.prems by (simp add: map_update)
  moreover have "i < length (xs[Suc i := xs ! ?j, ?j := xs ! Suc i])" using Suc.prems by simp
  ultimately show ?case using Suc.IH [of "xs[Suc i := xs ! ?j, ?j := xs ! Suc i]" "Suc k"]
    by (simp add: Let_def)
qed

lemma shuffleArray_positions:
  assumes "unit_draws rnd"
  shows "fst (shuffleArray rnd k xs) = map ((!) xs) (fst (shuffleArray rnd k [0..<length xs]))"
proof (cases xs)
  case Nil
  then show ?thesis by (simp add: shuffleArray_def)
next
  case (Cons x xs')
  have "xs = map ((!) xs) [0..<length xs]" by (simp add: map_nth)
  then have "shuffle_loop rnd k (length xs - 1) xs
        = shuffle_loop rnd k (length xs - 1) (map ((!) xs) [0..<length xs])" by simp
  also have "\<dots> = (map ((!) xs) (fst (shuffle_loop rnd k (length xs - 1) [0..<length xs])),
                   snd (shuffle_loop rnd k (length xs - 1) [0..<length xs]))"
    by (rule shuffle_loop_map [OF assms]) (simp add: Cons)
  finally show ?thesis by (simp add: shuffleArray_def)
qed

lemma shuffleArray_reach_positions:
  assumes "mset ps = mset [0..<length xs]" "array_sized xs"
  shows "\<exists>rnd. unit_draws rnd \<and> fst (shuffleArray rnd k xs) = map ((!) xs) ps"
proof -
  have "array_sized [0..<length xs]" using assms(2) by (simp add: array_sized_def)
  then obtain rnd where r: "unit_draws rnd" "fst (shuffleArray rnd k [0..<length xs]) = ps"
    using shuffleArray_reach [OF assms(1)] by blast
  then show ?thesis using shuffleArray_positions [OF r(1), of k xs] by auto
qed

lemma unit_draws_zero: "unit_draws zero_draws"
  by (simp add: unit_draws_def zero_draws_def unit_double_def dval_def)

lemma draw_index_zero: "draw_index zero_draws k i = 0"
  by (simp add: draw_index_def zero_draws_def js_times_def round_to_double_def dval_def)

text \<open>
  C5. shuffleArray, on every array of the store and whatever numbers below 1 the draws
  are: returns a new array, at a fresh address, holding the same multiset of elements
  as the input; writes to no array that was in the store, the input among them; has no
  failing case, and on an input of length 0 or 1 the new array equals the input; and,
  the input holding fewer than \<open>2\<^sup>3\<^sup>2\<close> elements as every array does, every permutation
  of its positions is what it returns for some draws.
\<close>

theorem shuffleArray_spec:
  assumes "unit_draws rnd" and "array < length st"
  shows "(case shuffleArray_st rnd k st array of (newArray, st', k') \<Rightarrow>
            newArray = length st \<and> newArray \<noteq> array
          \<and> length st' = Suc (length st)
          \<and> (\<forall>a < length st. st' ! a = st ! a)
          \<and> st' ! newArray = fst (shuffleArray rnd k (st ! array))
          \<and> mset (st' ! newArray) = mset (st ! array)
          \<and> length (st' ! newArray) = length (st ! array)
          \<and> (length (st ! array) \<le> 1 \<longrightarrow> st' ! newArray = st ! array))
       \<and> (array_sized (st ! array) \<longrightarrow>
            (\<forall>ps. mset ps = mset [0..<length (st ! array)] \<longrightarrow>
               (\<exists>rnd'. unit_draws rnd' \<and>
                  (case shuffleArray_st rnd' k st array of (newArray, st', k') \<Rightarrow>
                     st' ! newArray = map ((!) (st ! array)) ps))))"
proof -
  let ?xs = "st ! array"
  let ?ys = "fst (shuffleArray rnd k ?xs)"
  have ms: "mset ?ys = mset ?xs" by (rule shuffleArray_mset [OF assms(1)])
  then have len: "length ?ys = length ?xs" by (metis size_mset)
  have short: "?ys = ?xs" if "length ?xs \<le> 1"
  proof -
    have "length ?xs - 1 = 0" using that by simp
    then show ?thesis by (simp add: shuffleArray_def)
  qed
  have old: "(st @ [?ys]) ! a = st ! a" if "a < length st" for a
    using that by (simp add: nth_append)
  have first: "case shuffleArray_st rnd k st array of (newArray, st', k') \<Rightarrow>
            newArray = length st \<and> newArray \<noteq> array
          \<and> length st' = Suc (length st)
          \<and> (\<forall>a < length st. st' ! a = st ! a)
          \<and> st' ! newArray = fst (shuffleArray rnd k (st ! array))
          \<and> mset (st' ! newArray) = mset (st ! array)
          \<and> length (st' ! newArray) = length (st ! array)
          \<and> (length (st ! array) \<le> 1 \<longrightarrow> st' ! newArray = st ! array)"
    using assms(2) ms len short old by (simp add: shuffleArray_st_pure)
  have second: "\<exists>rnd'. unit_draws rnd' \<and>
               (case shuffleArray_st rnd' k st array of (newArray, st', k') \<Rightarrow>
                  st' ! newArray = map ((!) ?xs) ps)"
    if "mset ps = mset [0..<length ?xs]" "array_sized ?xs" for ps
    using shuffleArray_reach_positions [OF that, of k] by (simp add: shuffleArray_st_pure)
  from first second show ?thesis by blast
qed

theorem shuffleArray_spec_witness:
  "unit_draws zero_draws \<and> 0 < length abc_store \<and> array_sized (abc_store ! 0)
   \<and> shuffleArray_st zero_draws 0 abc_store 0
       = (1, [[''a'', ''b'', ''c''], [''b'', ''c'', ''a'']], 2)
   \<and> mset [2, 1, 0] = mset [0..<length (abc_store ! 0)]
   \<and> (\<exists>rnd'. unit_draws rnd' \<and>
         (case shuffleArray_st rnd' 0 abc_store 0 of (newArray, st', k') \<Rightarrow>
            st' ! newArray = [''c'', ''b'', ''a'']))"
proof -
  have h: "0 < length abc_store" by (simp add: abc_store_def)
  have e: "shuffleArray_st zero_draws 0 abc_store 0
       = (1, [[''a'', ''b'', ''c''], [''b'', ''c'', ''a'']], 2)"
    by (simp add: shuffleArray_st_def abc_store_def draw_index_zero Let_def numeral_2_eq_2)
  have a: "array_sized (abc_store ! 0)" by (simp add: abc_store_def array_sized_def)
  have p: "mset [2, 1, 0] = mset [0..<length (abc_store ! 0)]"
    by (simp add: abc_store_def upt_rec numeral_3_eq_3 numeral_2_eq_2)
  have m: "map ((!) (abc_store ! 0)) [2, 1, 0] = [''c'', ''b'', ''a'']"
    by (simp add: abc_store_def)
  have "\<exists>rnd'. unit_draws rnd' \<and>
         (case shuffleArray_st rnd' 0 abc_store 0 of (newArray, st', k') \<Rightarrow>
            st' ! newArray = map ((!) (abc_store ! 0)) [2, 1, 0])"
    using shuffleArray_spec [OF unit_draws_zero h, of 0] p a by blast
  then show ?thesis
    using unit_draws_zero h e p a unfolding m by blast
qed

subsection \<open>Retake\<close>

lemma same_question_refl: "same_question q q"
  by (simp add: same_question_def)

lemma shuffle_options_same:
  assumes "unit_draws rnd"
  shows "list_all2 same_question qs (fst (shuffle_options rnd k qs))"
proof (induction qs arbitrary: k)
  case Nil
  then show ?case by simp
next
  case (Cons q qs)
  have "same_question q (q\<lparr>options := fst (shuffleArray rnd k (options q))\<rparr>)"
    by (simp add: same_question_def shuffleArray_mset [OF assms])
  then show ?case using Cons.IH by (simp add: split_def Let_def)
qed

lemma randomize_eq:
  "fst (randomize rnd k qs) =
     fst (shuffle_options rnd (snd (shuffleArray rnd k qs)) (fst (shuffleArray rnd k qs)))"
  by (simp add: randomize_def split_def Let_def)

lemma retake_questions:
  "questions (fst (retakeCurrent rnd k s)) = fst (randomize rnd k (questions s))"
  by (simp add: retakeCurrent_def split_def Let_def)

lemma same_question_options:
  assumes "same_question q q'"
  shows "q\<lparr>options := options q'\<rparr> = q'"
proof -
  have "q'\<lparr>options := options q\<rparr> = q" using assms by (simp add: same_question_def)
  then have "q\<lparr>options := options q'\<rparr> = q'\<lparr>options := options q, options := options q'\<rparr>"
    by simp
  then show ?thesis by simp
qed

lemma shuffle_options_cong:
  "(\<And>m. k \<le> m \<Longrightarrow> rnd m = rnd' m) \<Longrightarrow>
   shuffle_options rnd k qs = shuffle_options rnd' k qs"
proof (induction qs arbitrary: k)
  case Nil
  then show ?case by simp
next
  case (Cons q qs)
  have a: "shuffleArray rnd k (options q) = shuffleArray rnd' k (options q)"
    by (rule shuffleArray_cong) (simp add: Cons.prems)
  have "shuffle_options rnd (snd (shuffleArray rnd' k (options q))) qs
      = shuffle_options rnd' (snd (shuffleArray rnd' k (options q))) qs"
    by (rule Cons.IH) (simp add: Cons.prems shuffleArray_calls)
  then show ?case by (simp add: a split_def Let_def)
qed

lemma joined_sources:
  assumes "unit_draws rnd1" "unit_draws rnd2"
  shows "unit_draws (\<lambda>m. if m < k1 then rnd1 m else rnd2 m)"
  using assms by (simp add: unit_draws_def)

lemma shuffle_options_reach:
  "list_all2 same_question mid qs' \<Longrightarrow> (\<forall>q\<in>set mid. array_sized (options q)) \<Longrightarrow>
   \<exists>rnd. unit_draws rnd \<and> fst (shuffle_options rnd k mid) = qs'"
proof (induction mid arbitrary: qs' k)
  case Nil
  then have "fst (shuffle_options zero_draws k []) = qs'" by simp
  then show ?case using unit_draws_zero by blast
next
  case (Cons q mid)
  from Cons.prems(1) obtain q' rest where qs': "qs' = q' # rest"
    and sq: "same_question q q'" and rest: "list_all2 same_question mid rest"
    by (auto simp: list_all2_Cons1)
  have ms: "mset (options q') = mset (options q)" using sq by (simp add: same_question_def)
  have sz: "array_sized (options q)" using Cons.prems(2) by simp
  obtain rnd1 where r1: "unit_draws rnd1" "fst (shuffleArray rnd1 k (options q)) = options q'"
    using shuffleArray_reach [OF ms sz] by blast
  define k1 where "k1 = k + (length (options q) - 1)"
  obtain rnd2 where r2: "unit_draws rnd2" "fst (shuffle_options rnd2 k1 mid) = rest"
    using Cons.IH [OF rest] Cons.prems(2) by auto
  define rnd where "rnd = (\<lambda>m. if m < k1 then rnd1 m else rnd2 m)"
  have u: "unit_draws rnd" unfolding rnd_def by (rule joined_sources [OF r1(1) r2(1)])
  have a: "shuffleArray rnd k (options q) = shuffleArray rnd1 k (options q)"
    by (rule shuffleArray_cong) (auto simp: rnd_def k1_def)
  have b: "shuffle_options rnd k1 mid = shuffle_options rnd2 k1 mid"
    by (rule shuffle_options_cong) (simp add: rnd_def)
  have k: "snd (shuffleArray rnd1 k (options q)) = k1" by (simp add: shuffleArray_calls k1_def)
  have "fst (shuffle_options rnd k (q # mid)) = q\<lparr>options := options q'\<rparr> # rest"
    by (simp add: a b k r1(2) r2(2) split_def Let_def)
  then have "fst (shuffle_options rnd k (q # mid)) = qs'"
    by (simp add: qs' same_question_options [OF sq])
  then show ?case using u by blast
qed

lemma randomize_reach:
  assumes "mset ps = mset [0..<length qs]"
    and "list_all2 same_question (map ((!) qs) ps) qs'"
    and "array_sized qs" and "\<forall>q\<in>set qs. array_sized (options q)"
  shows "\<exists>rnd. unit_draws rnd \<and> fst (randomize rnd k qs) = qs'"
proof -
  let ?mid = "map ((!) qs) ps"
  obtain rnd1 where r1: "unit_draws rnd1" "fst (shuffleArray rnd1 k qs) = ?mid"
    using shuffleArray_reach_positions [OF assms(1,3)] by blast
  have "set ps = {..<length qs}"
    using assms(1) by (metis atLeast_upt set_mset_mset)
  then have sz: "\<forall>q\<in>set ?mid. array_sized (options q)" using assms(4) by auto
  define k1 where "k1 = k + (length qs - 1)"
  obtain rnd2 where r2: "unit_draws rnd2" "fst (shuffle_options rnd2 k1 ?mid) = qs'"
    using shuffle_options_reach [OF assms(2) sz] by blast
  define rnd where "rnd = (\<lambda>m. if m < k1 then rnd1 m else rnd2 m)"
  have u: "unit_draws rnd" unfolding rnd_def by (rule joined_sources [OF r1(1) r2(1)])
  have a: "shuffleArray rnd k qs = shuffleArray rnd1 k qs"
    by (rule shuffleArray_cong) (auto simp: rnd_def k1_def)
  have b: "shuffle_options rnd k1 ?mid = shuffle_options rnd2 k1 ?mid"
    by (rule shuffle_options_cong) (simp add: rnd_def)
  have k: "snd (shuffleArray rnd1 k qs) = k1" by (simp add: shuffleArray_calls k1_def)
  have "fst (randomize rnd k qs) = qs'"
    by (simp add: randomize_eq a b k r1(2) r2(2))
  then show ?thesis using u by blast
qed

lemma same_question_reorder:
  "mset os = mset (options q) \<Longrightarrow> same_question q (q\<lparr>options := os\<rparr>)"
  by (simp add: same_question_def)

text \<open>
  C8. On a finished exam retakeCurrent sets the cursor to 0, the answers to the empty
  map and the step to exam. The new questions are a permutation of the previous ones,
  each with its options permuted and every other field kept. They are derived from the
  current questions by new draws, the same way the first order was, and nothing of the
  previous draws enters: with arrays of fewer than \<open>2\<^sup>3\<^sup>2\<close> elements, every order of
  the questions, with every order of the options of each, comes out for some draws. In
  particular each other order of the options of
  any one question comes out with the questions in place, and where two positions hold
  different questions some draws move them, so the new sequence is not bound to be the
  previous one.
\<close>

theorem retakeCurrent_spec:
  assumes "unit_draws rnd" and "step s = Results"
  shows "step (fst (retakeCurrent rnd k s)) = Exam
       \<and> currentQuestionIndex (fst (retakeCurrent rnd k s)) = 0
       \<and> userAnswers (fst (retakeCurrent rnd k s)) = Map.empty
       \<and> questions (fst (retakeCurrent rnd k s)) = fst (randomize rnd k (questions s))
       \<and> (\<exists>qs. mset qs = mset (questions s)
              \<and> list_all2 same_question qs (questions (fst (retakeCurrent rnd k s))))
       \<and> (array_sized (questions s) \<and> (\<forall>q\<in>set (questions s). array_sized (options q)) \<longrightarrow>
            (\<forall>ps qs'. mset ps = mset [0..<length (questions s)]
                 \<and> list_all2 same_question (map ((!) (questions s)) ps) qs' \<longrightarrow>
               (\<exists>rnd'. unit_draws rnd' \<and> questions (fst (retakeCurrent rnd' k s)) = qs'))
          \<and> (\<forall>i os. i < length (questions s) \<and> mset os = mset (options (questions s ! i))
                 \<and> os \<noteq> options (questions s ! i) \<longrightarrow>
               (\<exists>rnd'. unit_draws rnd'
                  \<and> questions (fst (retakeCurrent rnd' k s))
                      = (questions s)[i := (questions s ! i)\<lparr>options := os\<rparr>]
                  \<and> questions (fst (retakeCurrent rnd' k s)) \<noteq> questions s))
          \<and> (\<forall>i j. i < length (questions s) \<and> j < length (questions s)
                 \<and> \<not> same_question (questions s ! j) (questions s ! i) \<longrightarrow>
               (\<exists>rnd'. unit_draws rnd' \<and>
                  questions (fst (retakeCurrent rnd' k s)) \<noteq> questions s)))"
proof -
  let ?qs = "questions s"
  have a: "step (fst (retakeCurrent rnd k s)) = Exam
       \<and> currentQuestionIndex (fst (retakeCurrent rnd k s)) = 0
       \<and> userAnswers (fst (retakeCurrent rnd k s)) = Map.empty"
    by (simp add: retakeCurrent_def split_def Let_def)
  have b: "\<exists>qs. mset qs = mset ?qs
              \<and> list_all2 same_question qs (questions (fst (retakeCurrent rnd k s)))"
  proof -
    have "mset (fst (shuffleArray rnd k ?qs)) = mset ?qs"
      by (rule shuffleArray_mset [OF assms(1)])
    moreover have "list_all2 same_question (fst (shuffleArray rnd k ?qs))
        (questions (fst (retakeCurrent rnd k s)))"
      unfolding retake_questions randomize_eq by (rule shuffle_options_same [OF assms(1)])
    ultimately show ?thesis by blast
  qed
  have rest: "(\<forall>ps qs'. mset ps = mset [0..<length ?qs]
                 \<and> list_all2 same_question (map ((!) ?qs) ps) qs' \<longrightarrow>
               (\<exists>rnd'. unit_draws rnd' \<and> questions (fst (retakeCurrent rnd' k s)) = qs'))
          \<and> (\<forall>i os. i < length ?qs \<and> mset os = mset (options (?qs ! i))
                 \<and> os \<noteq> options (?qs ! i) \<longrightarrow>
               (\<exists>rnd'. unit_draws rnd'
                  \<and> questions (fst (retakeCurrent rnd' k s)) = ?qs[i := (?qs ! i)\<lparr>options := os\<rparr>]
                  \<and> questions (fst (retakeCurrent rnd' k s)) \<noteq> ?qs))
          \<and> (\<forall>i j. i < length ?qs \<and> j < length ?qs
                 \<and> \<not> same_question (?qs ! j) (?qs ! i) \<longrightarrow>
               (\<exists>rnd'. unit_draws rnd' \<and> questions (fst (retakeCurrent rnd' k s)) \<noteq> ?qs))"
    if sz: "array_sized ?qs" "\<forall>q\<in>set ?qs. array_sized (options q)"
  proof -
    have c: "\<exists>rnd'. unit_draws rnd' \<and> questions (fst (retakeCurrent rnd' k s)) = qs'"
      if "mset ps = mset [0..<length ?qs]" "list_all2 same_question (map ((!) ?qs) ps) qs'"
      for ps qs'
      using randomize_reach [OF that sz, of k] by (simp add: retake_questions)
    have d: "\<exists>rnd'. unit_draws rnd'
                  \<and> questions (fst (retakeCurrent rnd' k s)) = ?qs[i := (?qs ! i)\<lparr>options := os\<rparr>]
                  \<and> questions (fst (retakeCurrent rnd' k s)) \<noteq> ?qs"
      if io: "i < length ?qs" "mset os = mset (options (?qs ! i))" "os \<noteq> options (?qs ! i)"
      for i os
    proof -
      let ?qs' = "?qs[i := (?qs ! i)\<lparr>options := os\<rparr>]"
      have id: "map ((!) ?qs) [0..<length ?qs] = ?qs" by (rule map_nth)
      have "list_all2 same_question ?qs ?qs'"
        unfolding list_all2_conv_all_nth
        using io(1) same_question_reorder [OF io(2)] same_question_refl
        by (auto simp: nth_list_update)
      then have "list_all2 same_question (map ((!) ?qs) [0..<length ?qs]) ?qs'"
        by (simp only: id)
      from c [OF refl this] obtain rnd' where r: "unit_draws rnd'"
        "questions (fst (retakeCurrent rnd' k s)) = ?qs'" by blast
      have "options (?qs' ! i) \<noteq> options (?qs ! i)" using io(1,3) by simp
      then have "?qs' \<noteq> ?qs" by auto
      then show ?thesis using r by auto
    qed
    have e: "\<exists>rnd'. unit_draws rnd' \<and> questions (fst (retakeCurrent rnd' k s)) \<noteq> ?qs"
      if ij: "i < length ?qs" "j < length ?qs" "\<not> same_question (?qs ! j) (?qs ! i)" for i j
    proof -
      have ne: "i \<noteq> j" using ij(3) same_question_refl by auto
      let ?ps = "[0..<length ?qs][i := j, j := i]"
      have p: "mset ?ps = mset [0..<length ?qs]"
        using mset_swap [of j "[0..<length ?qs]" i] ij by simp
      have "list_all2 same_question (map ((!) ?qs) ?ps) (map ((!) ?qs) ?ps)"
        by (simp add: list_all2_conv_all_nth same_question_refl)
      from c [OF p this] obtain rnd' where r: "unit_draws rnd'"
        "questions (fst (retakeCurrent rnd' k s)) = map ((!) ?qs) ?ps" by blast
      have "?ps ! i = j" using ij ne by simp
      then have "map ((!) ?qs) ?ps ! i = ?qs ! j" using ij(1) by simp
      moreover have "?qs ! j \<noteq> ?qs ! i" using ij(3) same_question_refl by metis
      ultimately have "map ((!) ?qs) ?ps \<noteq> ?qs" by metis
      then show ?thesis using r by auto
    qed
    from c d e show ?thesis by blast
  qed
  from a retake_questions [of rnd k s] b rest show ?thesis by blast
qed

theorem retakeCurrent_spec_witness:
  "unit_draws zero_draws \<and> step exam_done = Results
   \<and> fst (retakeCurrent zero_draws 0 exam_done) =
        \<lparr>step = Exam,
         questions = [qB\<lparr>options := [''d'', ''c'']\<rparr>, qA\<lparr>options := [''b'', ''a'']\<rparr>],
         currentQuestionIndex = 0, userAnswers = Map.empty, isLoading = False, error = None\<rparr>
   \<and> array_sized (questions exam_done)
   \<and> array_sized (options qA) \<and> array_sized (options qB)
   \<and> mset [0, 1] = mset [0..<length (questions exam_done)]
   \<and> list_all2 same_question (map ((!) (questions exam_done)) [0, 1])
        [qA\<lparr>options := [''b'', ''a'']\<rparr>, qB]
   \<and> (\<exists>rnd'. unit_draws rnd' \<and>
         questions (fst (retakeCurrent rnd' 0 exam_done)) = [qA\<lparr>options := [''b'', ''a'']\<rparr>, qB])
   \<and> \<not> same_question (questions exam_done ! 1) (questions exam_done ! 0)
   \<and> (\<exists>rnd'. unit_draws rnd' \<and>
         questions (fst (retakeCurrent rnd' 0 exam_done)) \<noteq> questions exam_done)"
proof -
  have h: "step exam_done = Results" by (simp add: exam_done_def)
  note t = retakeCurrent_spec [OF unit_draws_zero h, of 0]
  have e: "fst (retakeCurrent zero_draws 0 exam_done) =
        \<lparr>step = Exam,
         questions = [qB\<lparr>options := [''d'', ''c'']\<rparr>, qA\<lparr>options := [''b'', ''a'']\<rparr>],
         currentQuestionIndex = 0, userAnswers = Map.empty, isLoading = False, error = None\<rparr>"
    by (simp add: retakeCurrent_def randomize_def shuffleArray_def draw_index_zero
        exam_done_def qA_def qB_def Let_def)
  have sz: "array_sized (questions exam_done)"
    "\<forall>q\<in>set (questions exam_done). array_sized (options q)"
    by (simp_all add: exam_done_def array_sized_def qA_def qB_def)
  have p: "mset [0, 1] = mset [0..<length (questions exam_done)]"
    by (simp add: exam_done_def upt_rec numeral_2_eq_2)
  have l2: "list_all2 same_question (map ((!) (questions exam_done)) [0, 1])
        [qA\<lparr>options := [''b'', ''a'']\<rparr>, qB]"
    by (simp add: exam_done_def same_question_def qA_def qB_def)
  have n: "\<not> same_question (questions exam_done ! 1) (questions exam_done ! 0)"
    by (simp add: same_question_def exam_done_def qA_def qB_def)
  have l: "0 < length (questions exam_done)" "1 < length (questions exam_done)"
    by (simp_all add: exam_done_def)
  have r1: "\<exists>rnd'. unit_draws rnd' \<and>
         questions (fst (retakeCurrent rnd' 0 exam_done)) = [qA\<lparr>options := [''b'', ''a'']\<rparr>, qB]"
    using t sz p l2 by blast
  have r2: "\<exists>rnd'. unit_draws rnd' \<and>
         questions (fst (retakeCurrent rnd' 0 exam_done)) \<noteq> questions exam_done"
    using t sz n l by blast
  have so: "array_sized (options qA)" "array_sized (options qB)"
    by (simp_all add: array_sized_def qA_def qB_def)
  show ?thesis
    using unit_draws_zero h e sz(1) so p l2 r1 r2 n by blast
qed

subsection \<open>Scoring\<close>

lemma count_correct_card:
  "count_correct answers idx qs c =
     c + card {i. i < length qs \<and> answers (idx + i) = Some (correctAnswer (qs ! i))}"
proof (induction qs arbitrary: idx c)
  case Nil
  then show ?case by simp
next
  case (Cons q qs)
  let ?P = "\<lambda>i. i < length (q # qs) \<and> answers (idx + i) = Some (correctAnswer ((q # qs) ! i))"
  let ?Q = "\<lambda>i. i < length qs \<and> answers (Suc idx + i) = Some (correctAnswer (qs ! i))"
  have split: "{i. ?P i} = (if answers idx = Some (correctAnswer q) then {0} else {}) \<union> Suc ` {i. ?Q i}"
  proof (rule set_eqI)
    fix i show "i \<in> {i. ?P i} \<longleftrightarrow>
        i \<in> (if answers idx = Some (correctAnswer q) then {0} else {}) \<union> Suc ` {i. ?Q i}"
      by (cases i) (auto simp: image_iff)
  qed
  have fin: "finite {i. ?Q i}" by simp
  have "card {i. ?P i} = (if answers idx = Some (correctAnswer q) then 1 else 0) + card {i. ?Q i}"
    unfolding split using fin
    by (subst card_Un_disjoint) (auto simp: card_image)
  then show ?case using Cons.IH [of "Suc idx"] by simp
qed

text \<open>
  C6. calculateResults counts exactly the positions whose recorded answer equals the
  question's correctAnswer: a position is correct (isCorrect) exactly when the answer
  recorded there is the correctAnswer, a position without an answer is never correct,
  the count is the number of correct positions, and the score is the count times 2.
  The function has no failing case.
\<close>

theorem calculateResults_counts:
  "correct (calculateResults s) = card {i. i < length (questions s) \<and> isCorrect s i}
   \<and> (\<forall>i. userAnswers s i = None \<longrightarrow> \<not> isCorrect s i)
   \<and> (\<forall>i. isCorrect s i \<longleftrightarrow> userAnswers s i = Some (correctAnswer (questions s ! i)))
   \<and> total (calculateResults s) = length (questions s)
   \<and> score (calculateResults s) = correct (calculateResults s) * 2"
  by (simp add: calculateResults_def isCorrect_def count_correct_card Let_def)

theorem calculateResults_counts_witness:
  "userAnswers exam_done 2 = None \<and> \<not> isCorrect exam_done 2
   \<and> isCorrect exam_done 0 \<and> \<not> isCorrect exam_done 1
   \<and> card {i. i < length (questions exam_done) \<and> isCorrect exam_done i} = 1
   \<and> calculateResults exam_done = \<lparr>correct = 1, total = 2, score = 2\<rparr>"
  using calculateResults_counts [of exam_done]
  by (simp add: calculateResults_def exam_done_def qA_def qB_def isCorrect_def)

subsection \<open>Completing the exam\<close>

text \<open>
  C10. nextQuestion with the cursor at the last index changes the step to results and
  nothing else: questions, answers and cursor are as before, so calculateResults
  reads the answers recorded during the attempt.
\<close>

theorem nextQuestion_last_frame:
  assumes "int (currentQuestionIndex s) = int (length (questions s)) - 1"
  shows "nextQuestion s = s\<lparr>step := Results\<rparr>
       \<and> step (nextQuestion s) = Results
       \<and> questions (nextQuestion s) = questions s
       \<and> userAnswers (nextQuestion s) = userAnswers s
       \<and> currentQuestionIndex (nextQuestion s) = currentQuestionIndex s
       \<and> calculateResults (nextQuestion s) = calculateResults s"
  using assms by (simp add: nextQuestion_def calculateResults_def)

theorem nextQuestion_last_frame_witness:
  "int (currentQuestionIndex exam_last) = int (length (questions exam_last)) - 1
   \<and> nextQuestion exam_last = exam_last\<lparr>step := Results\<rparr>
   \<and> userAnswers (nextQuestion exam_last) 0 = Some ''a''
   \<and> calculateResults (nextQuestion exam_last) = \<lparr>correct = 1, total = 2, score = 2\<rparr>"
proof -
  have h: "int (currentQuestionIndex exam_last) = int (length (questions exam_last)) - 1"
    by (simp add: exam_last_def)
  show ?thesis
    using h nextQuestion_last_frame [OF h]
    by (simp add: exam_last_def calculateResults_def qA_def qB_def)
qed

subsection \<open>Operations outside their step\<close>

text \<open>
  The handlers carry no test of the step and return no error. On a finished exam
  selectAnswer still records an answer and prevQuestion still moves the cursor; on a
  running exam retakeCurrent still resets it. So the statement that an operation
  invoked outside its step is rejected and changes nothing does not hold of the
  handlers.
\<close>

theorem handlers_unguarded_counterexample:
  "step exam_done = Results
   \<and> selectAnswer exam_done ''d'' \<noteq> exam_done
   \<and> prevQuestion exam_done \<noteq> exam_done
   \<and> step exam_last \<noteq> Results
   \<and> fst (retakeCurrent zero_draws 0 exam_last) \<noteq> exam_last"
proof -
  have a: "userAnswers (selectAnswer exam_done ''d'') 1 \<noteq> userAnswers exam_done 1"
    by (simp add: selectAnswer_def exam_done_def)
  have b: "currentQuestionIndex (prevQuestion exam_done) \<noteq> currentQuestionIndex exam_done"
    by (simp add: prevQuestion_def exam_done_def)
  have c: "currentQuestionIndex (fst (retakeCurrent zero_draws 0 exam_last))
             \<noteq> currentQuestionIndex exam_last"
    by (simp add: retakeCurrent_def exam_last_def split_def Let_def)
  from a b c show ?thesis
    by (auto simp: exam_done_def exam_last_def)
qed

text \<open>
  C1 (amended). The step is enforced by what the page renders: outside the exam step a
  click on an option button, on "next" or on "back" delivers no event and the state and
  the random source are as before, and outside the results step the same holds of the
  retake button, and the results block does not call calculateResults.
\<close>

theorem click_outside_step:
  "(step s \<noteq> Exam \<longrightarrow>
      click rnd k s (OptionButton a) = (s, k) \<and>
      click rnd k s NextButton = (s, k) \<and>
      click rnd k s PrevButton = (s, k))
   \<and> (step s \<noteq> Results \<longrightarrow>
      click rnd k s RetakeButton = (s, k) \<and> results_block s = None)"
  by (simp add: click_def exam_block_def results_block_def)

theorem click_outside_step_witness:
  "step exam_done \<noteq> Exam
   \<and> click zero_draws 0 exam_done (OptionButton ''d'') = (exam_done, 0)
   \<and> click zero_draws 0 exam_done NextButton = (exam_done, 0)
   \<and> click zero_draws 0 exam_done PrevButton = (exam_done, 0)
   \<and> step exam_last \<noteq> Results
   \<and> click zero_draws 0 exam_last RetakeButton = (exam_last, 0)
   \<and> results_block exam_last = None"
  using click_outside_step [of exam_done zero_draws 0 "''d''"]
        click_outside_step [of exam_last zero_draws 0 "''d''"]
  by (simp add: exam_done_def exam_last_def)

subsection \<open>Moving forward\<close>

text \<open>
  nextQuestion itself does not ask for an answer: at the first of two questions, with
  nothing answered, it moves the cursor. And through the "next" button the last
  question is held back like any other: with the cursor at the last index and no
  answer there, the click does not reach the results step.
\<close>

theorem advance_counterexample:
  "step exam_start = Exam \<and> userAnswers exam_start (currentQuestionIndex exam_start) = None
   \<and> currentQuestionIndex (nextQuestion exam_start) = 1
   \<and> step exam_last = Exam
   \<and> int (currentQuestionIndex exam_last) = int (length (questions exam_last)) - 1
   \<and> step (fst (click zero_draws 0 exam_last NextButton)) \<noteq> Results"
  by (simp add: exam_start_def exam_last_def nextQuestion_def click_def answered_def)

text \<open>
  C2 (amended). In the exam step with the cursor at a question, the "next" button does
  nothing while no answer is recorded at the cursor, at every index, the last one
  too. With a non-empty answer recorded there, the click adds one to the cursor when
  the cursor is not the last index, and changes the step to results, and nothing else,
  when it is.
\<close>

theorem next_button_spec:
  assumes "exam_block s"
  shows "(userAnswers s (currentQuestionIndex s) = None \<longrightarrow>
            click rnd k s NextButton = (s, k))
       \<and> (\<forall>a. userAnswers s (currentQuestionIndex s) = Some a \<and> a \<noteq> [] \<longrightarrow>
            (currentQuestionIndex s + 1 < length (questions s) \<longrightarrow>
               click rnd k s NextButton =
                 (s\<lparr>currentQuestionIndex := currentQuestionIndex s + 1\<rparr>, k))
          \<and> (currentQuestionIndex s + 1 = length (questions s) \<longrightarrow>
               click rnd k s NextButton = (s\<lparr>step := Results\<rparr>, k)))"
  using assms
  by (auto simp: click_def answered_def nextQuestion_def exam_block_def)

theorem next_button_spec_witness:
  "exam_block exam_last
   \<and> userAnswers exam_last (currentQuestionIndex exam_last) = None
   \<and> click zero_draws 0 exam_last NextButton = (exam_last, 0)
   \<and> exam_block (selectAnswer exam_start ''b'')
   \<and> userAnswers (selectAnswer exam_start ''b'') 0 = Some ''b''
   \<and> currentQuestionIndex (fst (click zero_draws 0 (selectAnswer exam_start ''b'') NextButton)) = 1
   \<and> exam_block (selectAnswer exam_last ''d'')
   \<and> step (fst (click zero_draws 0 (selectAnswer exam_last ''d'') NextButton)) = Results"
proof -
  have h1: "exam_block exam_last" by (simp add: exam_block_def exam_last_def)
  have h2: "exam_block (selectAnswer exam_start ''b'')"
    by (simp add: exam_block_def exam_start_def selectAnswer_def)
  have h3: "exam_block (selectAnswer exam_last ''d'')"
    by (simp add: exam_block_def exam_last_def selectAnswer_def)
  show ?thesis
    using h1 h2 h3 next_button_spec [OF h1, of zero_draws 0]
      next_button_spec [OF h2, of zero_draws 0] next_button_spec [OF h3, of zero_draws 0]
    by (simp add: exam_last_def exam_start_def selectAnswer_def)
qed

subsection \<open>Recording an answer\<close>

text \<open>
  selectAnswer does not compare its argument with the options of the current
  question: a string that is not among them is recorded like any other.
\<close>

theorem selectAnswer_not_member_counterexample:
  "step exam_start = Exam
   \<and> ''zzz'' \<notin> set (options (questions exam_start ! currentQuestionIndex exam_start))
   \<and> userAnswers (selectAnswer exam_start ''zzz'') (currentQuestionIndex exam_start) = Some ''zzz''"
  by (simp add: exam_start_def selectAnswer_def qA_def)

text \<open>
  C3 (amended). selectAnswer records the exact string at the key cursor for every
  string, leaves every other key and every other field as it was, and rejects nothing.
  Membership is enforced by the page: in the exam step there is an option button for
  the members of the current question's options only, so a click with a member
  records it and a click with any other string leaves the state as it is.
\<close>

theorem selectAnswer_spec:
  "userAnswers (selectAnswer s a) (currentQuestionIndex s) = Some a
   \<and> (\<forall>i. i \<noteq> currentQuestionIndex s \<longrightarrow> userAnswers (selectAnswer s a) i = userAnswers s i)
   \<and> selectAnswer s a = s\<lparr>userAnswers := userAnswers (selectAnswer s a)\<rparr>
   \<and> (exam_block s \<longrightarrow>
        (a \<in> set (options (questions s ! currentQuestionIndex s)) \<longrightarrow>
           click rnd k s (OptionButton a) = (selectAnswer s a, k))
      \<and> (a \<notin> set (options (questions s ! currentQuestionIndex s)) \<longrightarrow>
           click rnd k s (OptionButton a) = (s, k)))"
  by (simp add: selectAnswer_def click_def)

theorem selectAnswer_spec_witness:
  "exam_block exam_start
   \<and> ''b'' \<in> set (options (questions exam_start ! currentQuestionIndex exam_start))
   \<and> userAnswers (fst (click zero_draws 0 exam_start (OptionButton ''b''))) 0 = Some ''b''
   \<and> ''zzz'' \<notin> set (options (questions exam_start ! currentQuestionIndex exam_start))
   \<and> click zero_draws 0 exam_start (OptionButton ''zzz'') = (exam_start, 0)
   \<and> (1::nat) \<noteq> currentQuestionIndex exam_start
   \<and> userAnswers (selectAnswer exam_start ''b'') 1 = userAnswers exam_start 1"
  using selectAnswer_spec [of exam_start "''b''" zero_draws 0]
        selectAnswer_spec [of exam_start "''zzz''" zero_draws 0]
  by (simp add: exam_start_def exam_block_def qA_def selectAnswer_def)

subsection \<open>Failed ingestion\<close>

lemma randomize_single:
  "randomize zero_draws 0 [qA] = ([qA\<lparr>options := [''b'', ''a'']\<rparr>], 1)"
  by (simp add: randomize_def shuffleArray_def qA_def draw_index_zero Let_def)

lemma randomize_singleB:
  "randomize zero_draws 0 [qB] = ([qB\<lparr>options := [''d'', ''c'']\<rparr>], 1)"
  by (simp add: randomize_def shuffleArray_def qB_def draw_index_zero Let_def)

lemma msg_nonempty: "msg_fallback \<noteq> []" "msg_no_questions \<noteq> []" "msg_prefix \<noteq> []"
  by (simp_all add: msg_fallback_def msg_no_questions_def msg_prefix_def)

text \<open>
  The \<^verbatim>\<open>catch\<close> branch spreads the previous state and writes step, isLoading and
  error only. When two calls overlap and the first result has filled in questions, a
  failure arriving after it leaves them in place.
\<close>

theorem failed_ingestion_keeps_questions_counterexample:
  "step overlap_failure = Upload
   \<and> error overlap_failure = Some (msg_prefix @ ''quota'')
   \<and> questions overlap_failure = [qA\<lparr>options := [''b'', ''a'']\<rparr>]
   \<and> questions overlap_failure \<noteq> []"
  by (simp add: overlap_failure_def generateQuestions_settle_def randomize_single
      generateQuestions_catch_def generateQuestions_begin_def initial_state_def)

text \<open>
  C4 (amended). Every outcome that is an exception, or has no questions field, or has
  an empty list of questions, sets the step to upload, isLoading to false and the error
  to the prefix followed by a non-empty message, draws nothing, and leaves questions,
  cursor and answers as they were when the outcome arrived: it adds no question, and
  where the questions were empty at that moment they stay empty. A failed extraction of
  the text sets the error and leaves the step and the questions as they were.
\<close>

theorem failed_ingestion_spec:
  assumes "failed outcome"
  shows "generateQuestions_settle rnd k outcome s =
           (s\<lparr>step := Upload, isLoading := False,
               error := Some (msg_prefix @ failure_message outcome)\<rparr>, k)
       \<and> failure_message outcome \<noteq> []
       \<and> questions (fst (generateQuestions_settle rnd k outcome s)) = questions s
       \<and> (questions s = [] \<longrightarrow> questions (fst (generateQuestions_settle rnd k outcome s)) = [])
       \<and> error (extraction_failed s) = Some msg_unreadable
       \<and> step (extraction_failed s) = step s
       \<and> questions (extraction_failed s) = questions s"
  using assms
  by (auto simp: generateQuestions_settle_def generateQuestions_catch_def failure_message_def
      failed_def msg_nonempty extraction_failed_def
      split: option.splits if_splits gen_outcome.splits)

theorem failed_ingestion_spec_witness:
  "failed (Parsed (Some [])) \<and> failed (Threw None)
   \<and> questions (generateQuestions_begin initial_state) = []
   \<and> generateQuestions_settle zero_draws 0 (Parsed (Some [])) (generateQuestions_begin initial_state)
       = (initial_state\<lparr>error := Some (msg_prefix @ msg_no_questions)\<rparr>, 0)
   \<and> generateQuestions_settle zero_draws 0 (Threw None) (generateQuestions_begin initial_state)
       = (initial_state\<lparr>error := Some (msg_prefix @ msg_fallback)\<rparr>, 0)"
proof -
  have h1: "failed (Parsed (Some []))" and h2: "failed (Threw None)"
    by (simp_all add: failed_def)
  show ?thesis
    using h1 h2
      failed_ingestion_spec [OF h1, of zero_draws 0 "generateQuestions_begin initial_state"]
      failed_ingestion_spec [OF h2, of zero_draws 0 "generateQuestions_begin initial_state"]
    by (simp add: generateQuestions_begin_def initial_state_def failure_message_def)
qed

subsection \<open>Overlapping ingestions\<close>

text \<open>
  No call of generateQuestions is tagged, and a result is not compared with anything
  when it arrives: the result of the earlier call, arriving after the result of the
  later one, replaces the questions.
\<close>

theorem stale_result_applied_counterexample:
  "map qid (questions overlap_stale) = [qid qA] \<and> qid qA \<noteq> qid qB"
  by (simp add: overlap_stale_def generateQuestions_settle_def randomize_single randomize_singleB
      generateQuestions_catch_def generateQuestions_begin_def initial_state_def Let_def
      randomize_def shuffleArray_def qA_def qB_def draw_index_zero)

text \<open>
  C9 (amended). There is no token. A result is applied, when it arrives, to the state
  as it then is: whatever arrived before, the step and isLoading are those of the
  result that arrived last, after a success the questions are that result's questions
  randomised, and after a failure the error is that failure's message while the
  questions are those left by what arrived before.
\<close>

theorem settle_applies_on_arrival:
  "step (fst (generateQuestions_settle rnd k2 r2 (fst (generateQuestions_settle rnd k1 r1 s))))
     = (if failed r2 then Upload else Exam)
   \<and> isLoading (fst (generateQuestions_settle rnd k2 r2 (fst (generateQuestions_settle rnd k1 r1 s))))
     = False
   \<and> (\<forall>qs. r2 = Parsed (Some qs) \<and> length qs > 0 \<longrightarrow>
        questions (fst (generateQuestions_settle rnd k2 r2 (fst (generateQuestions_settle rnd k1 r1 s))))
          = fst (randomize rnd k2 qs))
   \<and> (failed r2 \<longrightarrow>
        error (fst (generateQuestions_settle rnd k2 r2 (fst (generateQuestions_settle rnd k1 r1 s))))
          = Some (msg_prefix @ failure_message r2)
      \<and> questions (fst (generateQuestions_settle rnd k2 r2 (fst (generateQuestions_settle rnd k1 r1 s))))
          = questions (fst (generateQuestions_settle rnd k1 r1 s)))"
  by (auto simp: generateQuestions_settle_def generateQuestions_catch_def failure_message_def
      failed_def split_def Let_def msg_nonempty
      split: option.splits if_splits gen_outcome.splits)

theorem settle_applies_on_arrival_witness:
  "failed (Threw None) \<and> \<not> failed (Parsed (Some [qA]))
   \<and> step overlap_stale = Exam
   \<and> questions overlap_stale = fst (randomize zero_draws 1 [qA])
   \<and> step overlap_failure = Upload
   \<and> error overlap_failure = Some (msg_prefix @ ''quota'')"
  using settle_applies_on_arrival [of zero_draws 1 "Parsed (Some [qA])" 0 "Parsed (Some [qB])"
          "generateQuestions_begin (generateQuestions_begin initial_state)"]
        settle_applies_on_arrival [of zero_draws 1 "Threw (Some ''quota'')" 0 "Parsed (Some [qA])"
          "generateQuestions_begin (generateQuestions_begin initial_state)"]
  by (simp add: failed_def overlap_stale_def overlap_failure_def failure_message_def)

subsection \<open>The percentage\<close>

lemma percentage_error:
  assumes "0 < t" "c \<le> t"
  shows "\<bar>dval (js_times_100 (js_div c t)) - 100 * of_nat c / of_nat t\<bar> \<le> 300 / 2 ^ 53"
proof -
  define r where "r = ((of_nat c / of_nat t) :: rat)"
  define p where "p = dval (js_times_100 (js_div c t))"
  have r: "0 \<le> r" "r \<le> 1" using assms by (simp_all add: r_def)
  have "\<bar>dval (js_times (round_to_double (int c) (int t) 0) 100)
          - of_int (int c) / of_int (int t) * of_int 100\<bar>
        \<le> 3 * (of_int (int c) / of_int (int t) * of_int 100) / 2 ^ 53"
    by (rule div_times_error(1)) (use assms in simp_all)
  then have "\<bar>p - r * 100\<bar> \<le> 3 * (r * 100) / 2 ^ 53"
    by (simp add: p_def r_def js_times_100_def js_div_def)
  also have "\<dots> \<le> 3 * (1 * 100) / 2 ^ 53"
    by (intro divide_right_mono mult_left_mono mult_right_mono r) simp_all
  finally have "\<bar>p - r * 100\<bar> \<le> 300 / 2 ^ 53" by simp
  moreover have "r * 100 = 100 * of_nat c / of_nat t" by (simp add: r_def)
  ultimately show ?thesis by (simp only: p_def)
qed

lemma half_gap:
  fixes z :: rat
  assumes "0 < t" "t < 2 ^ 32" "z = of_int K / (2 * of_nat t)" "0 < z"
  shows "300 / 2 ^ 53 < z"
proof -
  have tp: "(0::rat) < 2 * of_nat t" using assms(1) by simp
  have "(0::rat) < of_int K" using assms(3,4) tp by (simp add: zero_less_divide_iff)
  then have "1 \<le> K" by simp
  then have k: "(1::rat) \<le> of_int K" by simp
  have "(of_nat t :: rat) < of_nat (2 ^ 32)" using assms(2) by (simp only: of_nat_less_iff)
  then have tb: "(2 * of_nat t :: rat) < 2 ^ 33" by simp
  have "(300 / 2 ^ 53 :: rat) < 1 / 2 ^ 33" by simp
  also have "\<dots> < 1 / (2 * of_nat t)" using tb tp by (simp add: frac_less2)
  also have "\<dots> \<le> of_int K / (2 * of_nat t)" using k tp by (simp add: divide_right_mono)
  finally show ?thesis using assms(3) by simp
qed

lemma percentage_round:
  fixes y :: rat
  assumes "0 < t" "t < 2 ^ 32" "c \<le> t" "y = 100 * of_nat c / of_nat t"
  shows "Math_round (js_times_100 (js_div c t)) = \<lfloor>y + 1/2\<rfloor>
       \<or> (y + 1/2 = of_int \<lfloor>y + 1/2\<rfloor>
          \<and> Math_round (js_times_100 (js_div c t)) = \<lfloor>y + 1/2\<rfloor> - 1)"
proof -
  define p where "p = dval (js_times_100 (js_div c t))"
  define n where "n = \<lfloor>p + 1/2\<rfloor>"
  define r where "r = \<lfloor>y + 1/2\<rfloor>"
  define eps where "eps = (300 / 2 ^ 53 :: rat)"
  have T: "(0::rat) < of_nat t" using assms(1) by simp
  have nb: "of_int n \<le> p + 1/2" "p + 1/2 < of_int n + 1" unfolding n_def by linarith+
  have rb: "of_int r \<le> y + 1/2" "y + 1/2 < of_int r + 1" unfolding r_def by linarith+
  have "\<bar>p - y\<bar> \<le> eps"
    unfolding p_def eps_def assms(4) by (rule percentage_error [OF assms(1,3)])
  then have py: "p \<le> y + eps" "y - eps \<le> p" by (simp_all add: abs_le_iff)
  have eps1: "eps < 1" by (simp add: eps_def)
  have gap: "eps < z" if "z = of_int K / (2 * of_nat t)" "0 < z" for z K
    unfolding eps_def by (rule half_gap [OF assms(1,2) that])
  have yt: "y * of_nat t = 100 * of_nat c" using T by (simp add: assms(4))
  have form: "of_int k - (y + 1/2) = of_int (2 * k * int t - 200 * int c - int t) / (2 * of_nat t)"
    for k
  proof -
    have "(of_int k - (y + 1/2)) * (2 * of_nat t)
        = 2 * of_int k * of_nat t - 2 * (y * of_nat t) - of_nat t"
      by (simp add: algebra_simps)
    also have "\<dots> = of_int (2 * k * int t - 200 * int c - int t)" by (simp add: yt)
    finally show ?thesis using T by (simp add: nonzero_eq_divide_eq)
  qed
  have form': "(y + 1/2) - of_int k = of_int (200 * int c + int t - 2 * k * int t) / (2 * of_nat t)"
    for k
  proof -
    have "((y + 1/2) - of_int k) * (2 * of_nat t)
        = 2 * (y * of_nat t) + of_nat t - 2 * of_int k * of_nat t"
      by (simp add: algebra_simps)
    also have "\<dots> = of_int (200 * int c + int t - 2 * k * int t)" by (simp add: yt)
    finally show ?thesis using T by (simp add: nonzero_eq_divide_eq)
  qed
  have le: "n \<le> r"
  proof (rule ccontr)
    assume "\<not> n \<le> r"
    then have "r + 1 \<le> n" by simp
    then have "(of_int (r + 1) :: rat) \<le> of_int n" by (simp only: of_int_le_iff)
    then have "of_int (r + 1) - (y + 1/2) \<le> eps" using nb(1) py(1) by simp
    moreover have "0 < of_int (r + 1) - (y + 1/2)" using rb(2) by simp
    ultimately show False using gap [OF form [of "r + 1"]] by simp
  qed
  have ge: "r - 1 \<le> n"
  proof -
    have "of_int r - 1 - eps < of_int n" using nb(2) py(2) rb(1) by simp
    then have "(of_int (r - 2) :: rat) < of_int n" using eps1 by simp
    then have "r - 2 < n" by (simp only: of_int_less_iff)
    then show ?thesis by simp
  qed
  have tie: "y + 1/2 = of_int r" if "n \<noteq> r"
  proof (rule ccontr)
    assume ne: "y + 1/2 \<noteq> of_int r"
    have "n + 1 \<le> r" using le that by simp
    then have "(of_int (n + 1) :: rat) \<le> of_int r" by (simp only: of_int_le_iff)
    then have "y + 1/2 - of_int r < eps" using nb(2) py(2) by simp
    moreover have "0 < y + 1/2 - of_int r" using rb(1) ne by simp
    ultimately show False using gap [OF form' [of r]] by simp
  qed
  have "n = r \<or> (y + 1/2 = of_int r \<and> n = r - 1)" using le ge tie by auto
  then show ?thesis by (simp add: n_def r_def p_def Math_round_def)
qed

lemma correct_le_total: "correct (calculateResults s) \<le> length (questions s)"
proof -
  let ?A = "{i. i < length (questions s) \<and>
                userAnswers s (0 + i) = Some (correctAnswer (questions s ! i))}"
  have "card ?A \<le> card {..<length (questions s)}"
    by (rule card_mono) auto
  then show ?thesis
    by (simp add: calculateResults_def Let_def count_correct_card)
qed

text \<open>
  Away from an exact half the page shows the rounded quotient: for a session with at
  least one question the percentage is \<open>100 * correct / length\<close> rounded to the nearest
  integer, and it can be the integer below only where \<open>100 * correct / length\<close> lies
  exactly halfway between two integers.
\<close>

lemma percentage_near_round:
  assumes "0 < length (questions s)" "length (questions s) < 2 ^ 32"
  shows "\<exists>n. percentage (calculateResults s) = Num n \<and>
           (n = \<lfloor>100 * rat_of_nat (correct (calculateResults s))
                    / rat_of_nat (length (questions s)) + 1/2\<rfloor>
            \<or> (100 * rat_of_nat (correct (calculateResults s))
                    / rat_of_nat (length (questions s)) + 1/2
                 = of_int \<lfloor>100 * rat_of_nat (correct (calculateResults s))
                    / rat_of_nat (length (questions s)) + 1/2\<rfloor>
               \<and> n = \<lfloor>100 * rat_of_nat (correct (calculateResults s))
                    / rat_of_nat (length (questions s)) + 1/2\<rfloor> - 1))"
proof -
  let ?c = "correct (calculateResults s)"
  let ?t = "length (questions s)"
  have tot: "total (calculateResults s) = ?t" by (simp add: calculateResults_def Let_def)
  have le: "?c \<le> ?t" by (rule correct_le_total)
  have "percentage (calculateResults s) = Num (Math_round (js_times_100 (js_div ?c ?t)))"
    using assms(1) tot by (simp add: percentage_def)
  then show ?thesis using percentage_round [OF assms le refl] by blast
qed

text \<open>With no question the quotient is \<^verbatim>\<open>0 / 0\<close> and the percentage \<^verbatim>\<open>NaN\<close>.\<close>

lemma percentage_no_total: "percentage \<lparr>correct = 0, total = 0, score = 0\<rparr> = NaN"
  by (simp add: percentage_def)

lemma results_forty: "calculateResults forty_done = \<lparr>correct = 23, total = 40, score = 46\<rparr>"
  by code_simp

lemma percentage_23_40: "percentage \<lparr>correct = 23, total = 40, score = 46\<rparr> = Num 57"
  by code_simp

text \<open>
  C7. The percentage is meant to be \<open>100 * correct / length\<close> rounded, and the code
  misses it: after a finished exam of forty questions with 23 right answers the quotient
  is 57.5, which rounds to 58, but \<^verbatim>\<open>23 / 40\<close> is rounded to the number just below
  0.575, its product with 100 to the number just below 57.5, and \<^verbatim>\<open>Math.round\<close> of
  that is 57.
\<close>

theorem percentage_23_of_40:
  "step forty_done = Results
   \<and> length (questions forty_done) = 40
   \<and> calculateResults forty_done = \<lparr>correct = 23, total = 40, score = 46\<rparr>
   \<and> js_div 23 40 = (5179139571476070, - 53)
   \<and> dval (js_div 23 40) < 575 / 1000
   \<and> js_times_100 (js_div 23 40) = (8092405580431359, - 47)
   \<and> dval (js_times_100 (js_div 23 40)) < 575 / 10
   \<and> percentage (calculateResults forty_done) = Num 57
   \<and> \<lfloor>100 * 23 / 40 + 1/2 :: rat\<rfloor> = 58"
proof -
  have a: "js_div 23 40 = (5179139571476070, - 53)" by code_simp
  have b: "js_times_100 (5179139571476070, - 53) = (8092405580431359, - 47)" by code_simp
  have c: "dval (5179139571476070, - 53) < 575 / 1000" by code_simp
  have d: "dval (8092405580431359, - 47) < 575 / 10" by code_simp
  have e: "\<lfloor>100 * 23 / 40 + 1/2 :: rat\<rfloor> = 58" by (simp add: floor_eq_iff)
  have l: "length (questions forty_done) = 40"
    by (simp add: forty_done_def forty_questions_def)
  show ?thesis using a b c d e l results_forty percentage_23_40
    by (simp add: forty_done_def)
qed


end
